theory Spec2Isabelle
  imports Main "HOL-Library.Word" "HOL-Library.Multiset"
begin

section \<open>The sync dispatcher of go-filecoin (src/syncer/dispatcher.go)\<close>

text \<open>
  A shallow embedding of the dispatcher's target queue (a deduplicated priority queue on top
  of Go's \<open>container/heap\<close>), of its control protocol and of one cycle of its loop.
  Go's \<open>uint64\<close> is \<open>64 word\<close> (addition wraps); Go's \<open>int\<close> results are \<open>int\<close>.
  Positions in a slice are natural numbers: every index the heap computes is non-negative,
  and the one place where Go's arithmetic passes through a negative value, \<open>(j - 1) / 2\<close>
  at \<open>j = 0\<close>, truncates to 0 in Go exactly as the subtraction on \<open>nat\<close> does.
  A Go panic is the value \<open>None\<close>.
\<close>

subsection \<open>Data model\<close>

type_synonym uint64 = "64 word"

text \<open>
  Modelled from the spec: \<open>block.TipSetKey\<close> and its \<open>String\<close> method are not in src/.
  The spec calls \<open>Head\<close> an identity value, comparable and hashable, that uniquely names a
  candidate chain tip; the queue only ever reads \<open>Head.String()\<close>. A key is represented by
  that string, so that two keys are equal exactly when their strings are.
\<close>

datatype TipSetKey = TipSetKey string

fun String :: "TipSetKey \<Rightarrow> string" where
  "String (TipSetKey s) = s"

text \<open>
  Modelled from the spec: \<open>block.ChainInfo\<close> is not in src/. The spec and the test helper
  \<open>chainInfoFromHeight\<close> give the two fields the dispatcher reads: \<open>Head\<close> and the
  unsigned 64-bit \<open>Height\<close>.
\<close>

record ChainInfo =
  Head :: TipSetKey
  Height :: uint64

text \<open>\<open>SyncRequest\<close> embeds a \<open>ChainInfo\<close> and carries the heap's \<open>index\<close> field.\<close>

record SyncRequest =
  ChainInfo :: ChainInfo
  index :: int

text \<open>Go's zero values \<open>block.ChainInfo{}\<close> and \<open>SyncRequest{}\<close>.\<close>

definition ChainInfo_zero :: ChainInfo where
  "ChainInfo_zero = \<lparr>Head = TipSetKey [], Height = 0\<rparr>"

definition SyncRequest_zero :: SyncRequest where
  "SyncRequest_zero = \<lparr>ChainInfo = ChainInfo_zero, index = 0\<rparr>"

type_synonym rawQueue = "SyncRequest list"

record TargetQueue =
  q :: rawQueue
  targetSet :: "string set"

subsection \<open>rawQueue: the methods of \<open>heap.Interface\<close>\<close>

definition rawQueue_Len :: "rawQueue \<Rightarrow> int" where
  "rawQueue_Len rq = int (length rq)"

text \<open>
  \<open>Less\<close> is "greater than" on \<open>Height\<close>, so that the heap's root is the highest.
  \<open>Less\<close> and \<open>Swap\<close> index the slice, which panics out of range in Go; \<open>up\<close> and
  \<open>down\<close> below call them at positions under the length only. The one call out of
  range that the package can make, \<open>Swap(0, -1)\<close> in \<open>heap.Pop\<close> on an empty heap, is a
  branch of \<open>heap_Pop\<close>.
\<close>

definition Less :: "rawQueue \<Rightarrow> nat \<Rightarrow> nat \<Rightarrow> bool" where
  "Less rq i j = (Height (ChainInfo (rq ! i)) > Height (ChainInfo (rq ! j)))"

text \<open>
  \<open>rq[i], rq[j] = rq[j], rq[i]; rq[i].index = j; rq[j].index = i\<close>: the two assignments to
  \<open>index\<close> are made in this order, the second one last (it decides when \<open>i = j\<close>).
\<close>

definition Swap :: "rawQueue \<Rightarrow> nat \<Rightarrow> nat \<Rightarrow> rawQueue" where
  "Swap rq i j =
     (let rq1 = rq[i := rq ! j, j := rq ! i];
          rq2 = rq1[i := (rq1 ! i)\<lparr>index := int j\<rparr>]
      in rq2[j := (rq2 ! j)\<lparr>index := int i\<rparr>])"

definition rawQueue_Push :: "rawQueue \<Rightarrow> SyncRequest \<Rightarrow> rawQueue" where
  "rawQueue_Push rq x = (let n = length rq; syncReq = x\<lparr>index := int n\<rparr> in rq @ [syncReq])"

text \<open>\<open>old[n-1]\<close> panics on an empty slice.\<close>

definition rawQueue_Pop :: "rawQueue \<Rightarrow> (SyncRequest \<times> rawQueue) option" where
  "rawQueue_Pop old =
     (let n = length old in
      if n = 0 then None
      else let item = (old ! (n - 1))\<lparr>index := - 1\<rparr> in Some (item, take (n - 1) old))"

subsection \<open>Go's \<open>container/heap\<close>\<close>

text \<open>
  \<open>up\<close>: \<open>for { i := (j - 1) / 2; if i == j || !h.Less(j, i) { break }; h.Swap(i, j); j = i }\<close>.
\<close>

function up :: "rawQueue \<Rightarrow> nat \<Rightarrow> rawQueue" where
  "up h j =
     (let i = (j - 1) div 2 in
      if i = j \<or> \<not> Less h j i then h else up (Swap h i j) i)"
  by pat_completeness auto
termination
  by (relation "measure (\<lambda>(h, j). j)") auto

declare up.simps [simp del]

text \<open>
  The loop of \<open>down\<close>, returning the heap and the final \<open>i\<close>. The test \<open>j1 < 0\<close> of the
  source (for an overflow of \<open>int\<close>) is never true of a position.
\<close>

function down_loop :: "rawQueue \<Rightarrow> nat \<Rightarrow> nat \<Rightarrow> rawQueue \<times> nat" where
  "down_loop h i n =
     (let j1 = 2 * i + 1 in
      if j1 \<ge> n then (h, i)
      else
        let j2 = j1 + 1;
            j = (if j2 < n \<and> Less h j2 j1 then j2 else j1)
        in if \<not> Less h j i then (h, i) else down_loop (Swap h i j) j n)"
  by pat_completeness auto
termination
  by (relation "measure (\<lambda>(h, i, n). n - i)") (auto simp: Let_def split: if_splits)

declare down_loop.simps [simp del]

definition down :: "rawQueue \<Rightarrow> nat \<Rightarrow> nat \<Rightarrow> rawQueue \<times> bool" where
  "down h i0 n = (let (h', i) = down_loop h i0 n in (h', i > i0))"

text \<open>\<open>heap.Init\<close>: \<open>for i := n/2 - 1; i >= 0; i-- { down(h, i, n) }\<close>.\<close>

definition heap_Init :: "rawQueue \<Rightarrow> rawQueue" where
  "heap_Init h = (let n = length h in foldl (\<lambda>h i. fst (down h i n)) h (rev [0..<n div 2]))"

definition heap_Push :: "rawQueue \<Rightarrow> SyncRequest \<Rightarrow> rawQueue" where
  "heap_Push h x = (let h1 = rawQueue_Push h x in up h1 (length h1 - 1))"

text \<open>
  \<open>heap.Pop\<close>: \<open>n := h.Len() - 1; h.Swap(0, n); down(h, 0, n); return h.Pop()\<close>. On an empty
  heap \<open>n = -1\<close> and \<open>Swap(0, -1)\<close> panics with an index out of range.
\<close>

definition heap_Pop :: "rawQueue \<Rightarrow> (SyncRequest \<times> rawQueue) option" where
  "heap_Pop h =
     (if length h = 0 then None
      else let n = length h - 1; h1 = Swap h 0 n; h2 = fst (down h1 0 n) in rawQueue_Pop h2)"

subsection \<open>TargetQueue\<close>

definition NewTargetQueue :: TargetQueue where
  "NewTargetQueue = (let rq = heap_Init [] in \<lparr>q = rq, targetSet = {}\<rparr>)"

definition TargetQueue_Len :: "TargetQueue \<Rightarrow> int" where
  "TargetQueue_Len tq = rawQueue_Len (q tq)"

definition TargetQueue_Push :: "TargetQueue \<Rightarrow> SyncRequest \<Rightarrow> TargetQueue" where
  "TargetQueue_Push tq req =
     (if String (Head (ChainInfo req)) \<in> targetSet tq then tq
      else tq\<lparr>q := heap_Push (q tq) req,
              targetSet := insert (String (Head (ChainInfo req))) (targetSet tq)\<rparr>)"

text \<open>
  \<open>Pop\<close> returns the request and the flag, with the queue after the call. \<open>None\<close> is a
  panic of \<open>heap.Pop\<close>.
\<close>

definition TargetQueue_Pop :: "TargetQueue \<Rightarrow> ((SyncRequest \<times> bool) \<times> TargetQueue) option" where
  "TargetQueue_Pop tq =
     (if TargetQueue_Len tq = 0 then Some ((SyncRequest_zero, False), tq)
      else
        (case heap_Pop (q tq) of
           None \<Rightarrow> None
         | Some (req, rq) \<Rightarrow>
             let popKey = String (Head (ChainInfo req))
             in Some ((req, True), tq\<lparr>q := rq, targetSet := targetSet tq - {popKey}\<rparr>)))"

text \<open>A run of \<open>k\<close> successive calls of \<open>Pop\<close>, and of \<open>Push\<close> for each request of a list.\<close>

fun pops :: "nat \<Rightarrow> TargetQueue \<Rightarrow> ((SyncRequest \<times> bool) list \<times> TargetQueue) option" where
  "pops 0 tq = Some ([], tq)"
| "pops (Suc k) tq =
     (case TargetQueue_Pop tq of
        None \<Rightarrow> None
      | Some (r, tq1) \<Rightarrow>
          (case pops k tq1 of
             None \<Rightarrow> None
           | Some (rs, tq2) \<Rightarrow> Some (r # rs, tq2)))"

definition pushes :: "TargetQueue \<Rightarrow> SyncRequest list \<Rightarrow> TargetQueue" where
  "pushes tq reqs = foldl TargetQueue_Push tq reqs"

text \<open>Any sequence of calls of \<open>Push\<close> and \<open>Pop\<close> on a queue.\<close>

datatype tq_op = Push SyncRequest | Pop

fun apply_ops :: "tq_op list \<Rightarrow> TargetQueue \<Rightarrow> TargetQueue option" where
  "apply_ops [] tq = Some tq"
| "apply_ops (Push r # ops) tq = apply_ops ops (TargetQueue_Push tq r)"
| "apply_ops (Pop # ops) tq =
     (case TargetQueue_Pop tq of None \<Rightarrow> None | Some (r, tq1) \<Rightarrow> apply_ops ops tq1)"

subsection \<open>Dispatcher\<close>

text \<open>
  \<open>onProcessedCountCb\<close> has the fields \<open>cb\<close>, \<open>n\<close> and \<open>start\<close>; they are prefixed here,
  as a field called \<open>n\<close> would capture that variable name everywhere. The callback \<open>cb\<close> is
  an opaque value of type \<open>'f\<close>: calling it is recorded as the event \<open>Fired\<close>.
\<close>

record 'f onProcessedCountCb =
  opc_cb :: 'f
  opc_n :: uint64
  opc_start :: uint64

text \<open>
  The fields of \<open>Dispatcher\<close> that the loop owns. The channels \<open>production\<close> and \<open>control\<close>
  and the \<open>catchupSyncer\<close> belong to the environment: what they deliver in one cycle of the
  loop is the record \<open>cycle_env\<close> below.
\<close>

record 'f Dispatcher =
  targetQ :: TargetQueue
  onProcessedCountCbs :: "'f onProcessedCountCb list"
  syncReqCount :: uint64

text \<open>
  A value sent on \<open>control\<close> (an \<open>interface{}\<close>): an \<open>onProcessedCountCb\<close>, or a value of any
  other dynamic type, given by the name of its type.
\<close>

datatype 'f control = OnProcessedCountCb "'f onProcessedCountCb" | OtherControl string

text \<open>
  What the loop does to the outside: it calls a registered callback, it calls
  \<open>HandleNewTipSet(ctx, &ChainInfo, catchup)\<close> of the syncer, it logs.
\<close>

datatype 'f event =
    is_Fired: Fired 'f
  | is_HandleNewTipSet: HandleNewTipSet ChainInfo bool
  | is_LogSyncError: LogSyncError string
  | is_LogUnknownControl: LogUnknownControl string

definition NewDispatcher :: "'f Dispatcher" where
  "NewDispatcher = \<lparr>targetQ = NewTargetQueue, onProcessedCountCbs = [], syncReqCount = 0\<rparr>"

text \<open>\<open>receive\<close> wraps a \<open>ChainInfo\<close> as \<open>SyncRequest{ChainInfo: *ci}\<close> for the production channel.\<close>

definition receive :: "ChainInfo \<Rightarrow> SyncRequest" where
  "receive ci = \<lparr>ChainInfo = ci, index = 0\<rparr>"

text \<open>\<open>RegisterOnProcessedCount\<close> sends \<open>onProcessedCountCb{n: count, cb: cb}\<close> on \<open>control\<close>.\<close>

definition RegisterOnProcessedCount :: "uint64 \<Rightarrow> 'f \<Rightarrow> 'f control" where
  "RegisterOnProcessedCount cnt f = OnProcessedCountCb \<lparr>opc_cb = f, opc_n = cnt, opc_start = 0\<rparr>"

fun receiveCtrl :: "'f Dispatcher \<Rightarrow> 'f control \<Rightarrow> 'f Dispatcher \<times> 'f event list" where
  "receiveCtrl d (OnProcessedCountCb msg) =
     (let msg1 = msg\<lparr>opc_start := syncReqCount d\<rparr>
      in (d\<lparr>onProcessedCountCbs := onProcessedCountCbs d @ [msg1]\<rparr>, []))"
| "receiveCtrl d (OtherControl t) = (d, [LogUnknownControl t])"

text \<open>
  The loop of \<open>maybeFireCbs\<close> over \<open>d.onProcessedCountCbs\<close>, with its local \<open>removedIdxs\<close>
  and the calls \<open>opcCb.cb()\<close> it makes, in order.
\<close>

definition maybeFireCbs_loop :: "'f Dispatcher \<Rightarrow> int list \<times> 'f event list" where
  "maybeFireCbs_loop d =
     foldl (\<lambda>(removedIdxs, evs) (i, opcCb).
              if opc_start opcCb + opc_n opcCb = syncReqCount d
              then (removedIdxs @ [int i], evs @ [Fired (opc_cb opcCb)])
              else (removedIdxs, evs))
       ([], []) (enumerate 0 (onProcessedCountCbs d))"

text \<open>\<open>maybeFireCbs\<close> returns after the loop: \<open>removedIdxs\<close> is dropped.\<close>

definition maybeFireCbs :: "'f Dispatcher \<Rightarrow> 'f Dispatcher \<times> 'f event list" where
  "maybeFireCbs d = (let (removedIdxs, evs) = maybeFireCbs_loop d in (d, evs))"

text \<open>
  What the environment delivers in one cycle of the loop of \<open>Start\<close>:
  whether \<open>syncingCtx.Done()\<close> is ready; the value ready on \<open>control\<close>, if any; the values
  read from \<open>production\<close> by the non-blocking receive and \<open>drainProduced\<close> (none when the
  channel is empty); the error that \<open>HandleNewTipSet\<close> returns if it is called; and the
  value that the blocking receive on \<open>production\<close> returns (\<open>None\<close>: it never returns).
\<close>

record 'f cycle_env =
  ctx_done :: bool
  ctrl_ready :: "'f control option"
  arrivals :: "SyncRequest list"
  sync_err :: "string option"
  extra :: "SyncRequest option"

datatype 'f status =
    Returned
  | Continue "'f Dispatcher" "SyncRequest option"
  | Blocked "'f Dispatcher"
  | Panicked

text \<open>
  The cycle from the control signal to the pushes: \<open>receiveCtrl\<close>, then \<open>produced\<close> is
  the request left in \<open>last\<close> followed by the arrivals, each pushed on the target queue.
\<close>

definition intake ::
  "'f cycle_env \<Rightarrow> 'f Dispatcher \<Rightarrow> SyncRequest option \<Rightarrow> 'f Dispatcher \<times> 'f event list" where
  "intake env d lastReq =
     (let (d1, evs1) = (case ctrl_ready env of Some ctrl \<Rightarrow> receiveCtrl d ctrl | None \<Rightarrow> (d, []));
          produced = (case lastReq of Some l \<Rightarrow> [l] | None \<Rightarrow> []);
          produced = produced @ arrivals env
      in (d1\<lparr>targetQ := pushes (targetQ d1) produced\<rparr>, evs1))"

text \<open>
  One cycle of the loop of \<open>Start\<close>, from the dispatcher and the local \<open>last\<close>: the new
  status and the events of the cycle, in order.
\<close>

definition cycle ::
  "'f cycle_env \<Rightarrow> 'f Dispatcher \<Rightarrow> SyncRequest option \<Rightarrow> 'f status \<times> 'f event list" where
  "cycle env d lastReq =
     (let (d1, evs1) = maybeFireCbs d in
      if ctx_done env then (Returned, evs1)
      else
        let (d2, evs2) = intake env d1 lastReq in
        (case TargetQueue_Pop (targetQ d2) of
           None \<Rightarrow> (Panicked, evs1 @ evs2)
         | Some ((syncReq, popped), tq) \<Rightarrow>
             let d3 = d2\<lparr>targetQ := tq\<rparr> in
             if popped then
               (Continue (d3\<lparr>syncReqCount := syncReqCount d3 + 1\<rparr>) None,
                evs1 @ evs2 @ [HandleNewTipSet (ChainInfo syncReq) True] @
                  (case sync_err env of Some err \<Rightarrow> [LogSyncError err] | None \<Rightarrow> []))
             else
               (case extra env of
                  Some x \<Rightarrow> (Continue d3 (Some x), evs1 @ evs2)
                | None \<Rightarrow> (Blocked d3, evs1 @ evs2))))"

text \<open>The loop over the cycles that a list of environments describes: all its events.\<close>

fun run :: "'f cycle_env list \<Rightarrow> 'f Dispatcher \<Rightarrow> SyncRequest option \<Rightarrow> 'f event list" where
  "run [] d lastReq = []"
| "run (env # envs) d lastReq =
     (case cycle env d lastReq of
        (Continue d1 lastReq1, evs) \<Rightarrow> evs @ run envs d1 lastReq1
      | (_, evs) \<Rightarrow> evs)"

subsection \<open>Concrete inputs\<close>

text \<open>A request as dispatcher\_test.go builds them: a key, a height.\<close>

definition testRequest :: "string \<Rightarrow> uint64 \<Rightarrow> SyncRequest" where
  "testRequest s h = receive \<lparr>Head = TipSetKey s, Height = h\<rparr>"

text \<open>The four requests of \<open>TestQueueHappy\<close>, in the order they are pushed.\<close>

definition happy :: "SyncRequest list" where
  "happy = [testRequest ''2'' 2, testRequest ''47'' 47, testRequest ''0'' 0, testRequest ''1'' 1]"

text \<open>A cycle in which nothing is ready and the blocking receive never returns.\<close>

definition quiet :: "nat cycle_env" where
  "quiet = \<lparr>ctx_done = False, ctrl_ready = None, arrivals = [], sync_err = None, extra = None\<rparr>"

text \<open>Dispatchers and cycles for the examples.\<close>

definition two_pending :: "nat Dispatcher" where
  "two_pending =
     \<lparr>targetQ = NewTargetQueue,
      onProcessedCountCbs = [\<lparr>opc_cb = 7, opc_n = 3, opc_start = 5\<rparr>,
                             \<lparr>opc_cb = 9, opc_n = 1, opc_start = 5\<rparr>],
      syncReqCount = 8\<rparr>"

definition registered_for_0 :: "nat cycle_env list" where
  "registered_for_0 =
     [quiet\<lparr>ctrl_ready := Some (RegisterOnProcessedCount 0 7), arrivals := [testRequest ''a'' 1]\<rparr>,
      quiet\<lparr>extra := Some (testRequest ''b'' 2)\<rparr>,
      quiet\<lparr>arrivals := [testRequest ''c'' 3]\<rparr>,
      quiet,
      quiet]"

definition at_five :: "nat Dispatcher" where
  "at_five = \<lparr>targetQ = NewTargetQueue, onProcessedCountCbs = [], syncReqCount = 5\<rparr>"

definition failing_sync :: "nat cycle_env" where
  "failing_sync = quiet\<lparr>arrivals := [testRequest ''a'' 1], sync_err := Some ''boom''\<rparr>"

definition registered_at_5 :: "nat cycle_env list" where
  "registered_at_5 =
     [quiet\<lparr>arrivals := [testRequest ''1'' 1, testRequest ''2'' 2, testRequest ''3'' 3,
                          testRequest ''4'' 4, testRequest ''5'' 5]\<rparr>,
      quiet, quiet, quiet, quiet,
      quiet\<lparr>ctrl_ready := Some (RegisterOnProcessedCount 3 7),
            arrivals := [testRequest ''6'' 6, testRequest ''7'' 7, testRequest ''8'' 8]\<rparr>,
      quiet, quiet,
      quiet\<lparr>extra := Some (testRequest ''9'' 9)\<rparr>,
      quiet,
      quiet]"

subsection \<open>Notions for the proofs\<close>

definition key :: "rawQueue \<Rightarrow> nat \<Rightarrow> uint64" where
  "key h i = Height (ChainInfo (h ! i))"

definition infos :: "rawQueue \<Rightarrow> ChainInfo list" where
  "infos h = map ChainInfo h"

definition heights :: "(SyncRequest \<times> bool) list \<Rightarrow> uint64 list" where
  "heights out = map (\<lambda>r. Height (ChainInfo (fst r))) out"

definition keys :: "rawQueue \<Rightarrow> string list" where
  "keys h = map (\<lambda>c. String (Head c)) (infos h)"

definition parent :: "nat \<Rightarrow> nat" where
  "parent k = (k - 1) div 2"

text \<open>The larger child that \<open>down\<close> picks at \<open>i\<close>.\<close>

definition bigchild :: "rawQueue \<Rightarrow> nat \<Rightarrow> nat \<Rightarrow> nat" where
  "bigchild h i n = (if 2 * i + 2 < n \<and> Less h (2 * i + 2) (2 * i + 1) then 2 * i + 2 else 2 * i + 1)"

text \<open>The first \<open>n\<close> entries form a heap: no entry is higher than its parent.\<close>

definition heap_ok :: "rawQueue \<Rightarrow> nat \<Rightarrow> bool" where
  "heap_ok h n = (\<forall>k<n. key h k \<le> key h (parent k))"

text \<open>A heap but for the entry at \<open>j\<close>, which may be higher than its parent.\<close>

definition up_inv :: "rawQueue \<Rightarrow> nat \<Rightarrow> bool" where
  "up_inv h j =
     (j < length h \<and>
      (\<forall>k<length h. k \<noteq> j \<longrightarrow> key h k \<le> key h (parent k)) \<and>
      (\<forall>k<length h. parent k = j \<longrightarrow> key h k \<le> key h (parent j)))"

text \<open>A heap but for the entry at \<open>i\<close>, which may be lower than its children.\<close>

definition down_inv :: "rawQueue \<Rightarrow> nat \<Rightarrow> nat \<Rightarrow> bool" where
  "down_inv h i n =
     (n \<le> length h \<and>
      (\<forall>k<n. parent k \<noteq> i \<longrightarrow> key h k \<le> key h (parent k)) \<and>
      (\<forall>k<n. parent k = i \<longrightarrow> 0 < i \<longrightarrow> key h k \<le> key h (parent i)))"

text \<open>The invariant of a target queue: a heap whose keys are distinct and are the set.\<close>

definition tq_inv :: "TargetQueue \<Rightarrow> bool" where
  "tq_inv tq =
     (heap_ok (q tq) (length (q tq)) \<and> distinct (keys (q tq)) \<and> targetSet tq = set (keys (q tq)))"

section \<open>Proofs\<close>

subsection \<open>Swapping and sifting up\<close>

lemma parent_le: "parent k \<le> k"
  by (simp add: parent_def)

lemma parent_less: "0 < k \<Longrightarrow> parent k < k"
  by (simp add: parent_def)

lemma parent_fix: "parent k = k \<longleftrightarrow> k = 0"
  by (auto simp: parent_def)

lemma parent_lt_length: "k < length h \<Longrightarrow> parent k < length h"
  using parent_le[of k] by simp

lemma length_Swap [simp]: "length (Swap h i j) = length h"
  by (simp add: Swap_def Let_def)

lemma infos_Swap:
  "i < length h \<Longrightarrow> j < length h \<Longrightarrow>
   infos (Swap h i j) = (infos h)[i := infos h ! j, j := infos h ! i]"
  by (auto simp: infos_def Swap_def Let_def list_eq_iff_nth_eq nth_list_update)

lemma length_infos [simp]: "length (infos h) = length h"
  by (simp add: infos_def)

lemma key_infos: "k < length h \<Longrightarrow> key h k = Height (infos h ! k)"
  by (simp add: key_def infos_def)

lemma key_Swap:
  "i < length h \<Longrightarrow> j < length h \<Longrightarrow> k < length h \<Longrightarrow>
   key (Swap h i j) k = (if k = j then key h i else if k = i then key h j else key h k)"
  by (simp add: key_infos infos_Swap nth_list_update)

lemma mset_infos_Swap:
  "i < length h \<Longrightarrow> j < length h \<Longrightarrow> mset (infos (Swap h i j)) = mset (infos h)"
  by (simp add: infos_Swap mset_swap)

lemma Less_key: "Less h i j = (key h j < key h i)"
  by (simp add: Less_def key_def)

lemma up_unfold:
  "up h j = (if parent j = j \<or> \<not> Less h j (parent j) then h
             else up (Swap h (parent j) j) (parent j))"
  by (subst up.simps) (simp add: Let_def parent_def)

lemma up_induct [case_names step]:
  assumes "\<And>h j. (parent j \<noteq> j \<Longrightarrow> Less h j (parent j) \<Longrightarrow>
             P (Swap h (parent j) j) (parent j)) \<Longrightarrow> P h j"
  shows "P h j"
proof (induction h j rule: up.induct)
  case (1 h j)
  show ?case
    by (rule assms) (use "1" in \<open>simp add: parent_def\<close>)
qed

lemma length_up [simp]: "length (up h j) = length h"
  by (induction h j rule: up_induct) (subst up_unfold, simp)

lemma mset_infos_up: "j < length h \<Longrightarrow> mset (infos (up h j)) = mset (infos h)"
proof (induction h j rule: up_induct)
  case (step h j)
  show ?case
  proof (cases "parent j = j \<or> \<not> Less h j (parent j)")
    case True
    then show ?thesis by (subst up_unfold) simp
  next
    case False
    have "up h j = up (Swap h (parent j) j) (parent j)"
      using False by (subst up_unfold) simp
    then show ?thesis
      using step.IH False step.prems parent_lt_length[OF step.prems]
      by (simp add: mset_infos_Swap)
  qed
qed

lemma up_inv_step:
  assumes inv: "up_inv h j" and ne: "parent j \<noteq> j" and lt: "key h (parent j) < key h j"
  shows "up_inv (Swap h (parent j) j) (parent j)"
proof -
  define i where "i = parent j"
  have pj: "parent j = i" by (simp add: i_def)
  have j: "j < length h" using inv by (simp add: up_inv_def)
  have ij: "i < j" using ne parent_less[of j] parent_fix[of j] by (auto simp: i_def)
  have i: "i < length h" using ij j by simp
  have A: "\<And>k. k < length h \<Longrightarrow> k \<noteq> j \<Longrightarrow> key h k \<le> key h (parent k)"
    using inv by (auto simp: up_inv_def)
  have B: "\<And>k. k < length h \<Longrightarrow> parent k = j \<Longrightarrow> key h k \<le> key h i"
    using inv by (auto simp: up_inv_def i_def)
  have lt': "key h i < key h j" using lt by (simp add: i_def)
  have pi: "parent i < length h" using i by (rule parent_lt_length)
  have pij: "parent i \<noteq> j" using ij parent_le[of i] by auto
  have new_pi: "key h i \<le> key (Swap h i j) (parent i)"
  proof (cases "parent i = i")
    case True
    then show ?thesis using i j lt' ij by (simp add: key_Swap)
  next
    case False
    then show ?thesis using i j pi pij A[OF i] ij by (simp add: key_Swap)
  qed
  have 1: "key (Swap h i j) k \<le> key (Swap h i j) (parent k)"
    if k: "k < length h" and kne: "k \<noteq> i" for k
  proof -
    have pk: "parent k < length h" using k by (rule parent_lt_length)
    consider "k = j" | "k \<noteq> j" "parent k = j" | "k \<noteq> j" "parent k = i" | "k \<noteq> j" "parent k \<noteq> j" "parent k \<noteq> i"
      by blast
    then show ?thesis
    proof cases
      case 1
      then show ?thesis using i j ij lt' pj by (simp add: key_Swap)
    next
      case 2
      then show ?thesis using B[OF k] i j k kne ij by (simp add: key_Swap)
    next
      case 3
      then show ?thesis using A[OF k] i j k kne ij lt' by (simp add: key_Swap)
    next
      case 4
      then show ?thesis using A[OF k] i j k kne pk by (simp add: key_Swap)
    qed
  qed
  have 2: "key (Swap h i j) k \<le> key (Swap h i j) (parent i)"
    if k: "k < length h" and pki: "parent k = i" for k
  proof (cases "k = j")
    case True
    then show ?thesis using i j new_pi ij by (simp add: key_Swap)
  next
    case False
    show ?thesis
    proof (cases "k = i")
      case True
      then have "i = 0" using pki parent_fix[of i] by simp
      then show ?thesis using True pki by simp
    next
      case F: False
      then have "key (Swap h i j) k = key h k" using i j k False by (simp add: key_Swap)
      moreover have "key h k \<le> key h i" using A[OF k False] pki by simp
      ultimately show ?thesis using new_pi by simp
    qed
  qed
  show ?thesis
    unfolding up_inv_def pj using i 1 2 by auto
qed

lemma up_heap_ok: "up_inv h j \<Longrightarrow> heap_ok (up h j) (length h)"
proof (induction h j rule: up_induct)
  case (step h j)
  show ?case
  proof (cases "parent j = j \<or> \<not> Less h j (parent j)")
    case True
    have eq: "up h j = h" using True by (subst up_unfold) simp
    have "key h j \<le> key h (parent j)"
      using True by (auto simp: Less_key)
    then show ?thesis using step.prems unfolding eq heap_ok_def up_inv_def
      by metis
  next
    case False
    have eq: "up h j = up (Swap h (parent j) j) (parent j)"
      using False by (subst up_unfold) simp
    have "up_inv (Swap h (parent j) j) (parent j)"
      using up_inv_step[OF step.prems] False by (simp add: Less_key)
    with step.IH False show ?thesis by (simp add: eq)
  qed
qed

subsection \<open>Sifting down\<close>

lemma down_unfold:
  "down_loop h i n =
     (if 2 * i + 1 \<ge> n then (h, i)
      else if \<not> Less h (bigchild h i n) i then (h, i)
      else down_loop (Swap h i (bigchild h i n)) (bigchild h i n) n)"
  by (subst down_loop.simps) (simp add: Let_def bigchild_def)

lemma down_induct [case_names step]:
  assumes "\<And>h i n. (2 * i + 1 < n \<Longrightarrow> Less h (bigchild h i n) i \<Longrightarrow>
             P (Swap h i (bigchild h i n)) (bigchild h i n) n) \<Longrightarrow> P h i n"
  shows "P h i n"
proof (induction h i n rule: down_loop.induct)
  case (1 h i n)
  show ?case
    by (rule assms) (use "1" in \<open>simp add: bigchild_def\<close>)
qed

lemma parent_child: "parent k = i \<Longrightarrow> k \<noteq> i \<Longrightarrow> k = 2 * i + 1 \<or> k = 2 * i + 2"
  unfolding parent_def by (cases "k = 0") (simp, arith)

lemma bigchild_props:
  assumes "2 * i + 1 < n"
  shows "bigchild h i n < n" and "parent (bigchild h i n) = i" and "i < bigchild h i n"
    and "\<And>k. k < n \<Longrightarrow> parent k = i \<Longrightarrow> k \<noteq> i \<Longrightarrow> key h k \<le> key h (bigchild h i n)"
proof -
  show "bigchild h i n < n" using assms by (simp add: bigchild_def)
  show "parent (bigchild h i n) = i" by (simp add: bigchild_def parent_def)
  show "i < bigchild h i n" by (simp add: bigchild_def)
  fix k assume "k < n" "parent k = i" "k \<noteq> i"
  then have "k = 2 * i + 1 \<or> k = 2 * i + 2" using parent_child by blast
  then show "key h k \<le> key h (bigchild h i n)"
    using \<open>k < n\<close> by (auto simp: bigchild_def Less_key)
qed

lemma length_down_loop [simp]: "length (fst (down_loop h i n)) = length h"
  by (induction h i n rule: down_induct) (subst down_unfold, simp)

lemma nth_Swap_other: "k \<noteq> i \<Longrightarrow> k \<noteq> j \<Longrightarrow> Swap h i j ! k = h ! k"
  by (simp add: Swap_def Let_def)

lemma down_loop_above: "n \<le> k \<Longrightarrow> fst (down_loop h i n) ! k = h ! k"
proof (induction h i n rule: down_induct)
  case (step h i n)
  show ?case
  proof (cases "2 * i + 1 < n \<and> Less h (bigchild h i n) i")
    case False
    then show ?thesis by (subst down_unfold) auto
  next
    case True
    then have eq: "down_loop h i n = down_loop (Swap h i (bigchild h i n)) (bigchild h i n) n"
      by (subst down_unfold) simp
    have "bigchild h i n < n" "i < bigchild h i n" using True bigchild_props by auto
    then have "Swap h i (bigchild h i n) ! k = h ! k"
      using step.prems by (intro nth_Swap_other) auto
    then show ?thesis using step.IH True step.prems by (simp add: eq)
  qed
qed

lemma mset_infos_down_loop:
  "n \<le> length h \<Longrightarrow> mset (infos (fst (down_loop h i n))) = mset (infos h)"
proof (induction h i n rule: down_induct)
  case (step h i n)
  show ?case
  proof (cases "2 * i + 1 < n \<and> Less h (bigchild h i n) i")
    case False
    then show ?thesis by (subst down_unfold) auto
  next
    case True
    then have eq: "down_loop h i n = down_loop (Swap h i (bigchild h i n)) (bigchild h i n) n"
      by (subst down_unfold) simp
    have "bigchild h i n < n" "i < bigchild h i n" using True bigchild_props by auto
    then have "mset (infos (Swap h i (bigchild h i n))) = mset (infos h)"
      using step.prems by (intro mset_infos_Swap) auto
    then show ?thesis using step.IH True step.prems by (simp add: eq)
  qed
qed

lemma down_inv_step:
  assumes inv: "down_inv h i n" and c: "2 * i + 1 < n" and lt: "key h i < key h (bigchild h i n)"
  shows "down_inv (Swap h i (bigchild h i n)) (bigchild h i n) n"
proof -
  define j where "j = bigchild h i n"
  note bp = bigchild_props[OF c, where h = h, folded j_def]
  have n: "n \<le> length h" using inv by (simp add: down_inv_def)
  have j: "j < length h" and jn: "j < n" and ij: "i < j" and pj: "parent j = i"
    using bp n by auto
  have i: "i < length h" using ij j by simp
  have A: "\<And>k. k < n \<Longrightarrow> parent k \<noteq> i \<Longrightarrow> key h k \<le> key h (parent k)"
    using inv by (auto simp: down_inv_def)
  have B: "\<And>k. k < n \<Longrightarrow> parent k = i \<Longrightarrow> 0 < i \<Longrightarrow> key h k \<le> key h (parent i)"
    using inv by (auto simp: down_inv_def)
  have C: "\<And>k. k < n \<Longrightarrow> parent k = i \<Longrightarrow> k \<noteq> i \<Longrightarrow> key h k \<le> key h j"
    using bp(4) by blast
  have lt': "key h i < key h j" using lt by (simp add: j_def)
  have 1: "key (Swap h i j) k \<le> key (Swap h i j) (parent k)"
    if k: "k < n" and pkj: "parent k \<noteq> j" for k
  proof -
    have kl: "k < length h" using k n by simp
    have pk: "parent k < length h" using kl by (rule parent_lt_length)
    consider "k = i" "i = 0" | "k = i" "0 < i" | "k = j" | "k \<noteq> i" "k \<noteq> j" "parent k = i"
      | "k \<noteq> i" "k \<noteq> j" "parent k \<noteq> i"
      by blast
    then show ?thesis
    proof cases
      case 1
      then have "parent k = k" by (simp add: parent_fix)
      then show ?thesis by simp
    next
      case 2
      have pi: "parent i < i" using 2 parent_less by simp
      have "key h j \<le> key h (parent i)" using B[OF jn pj] 2 by simp
      then show ?thesis using 2 i j ij pi by (simp add: key_Swap)
    next
      case 3
      then show ?thesis using i j ij pj lt' by (simp add: key_Swap)
    next
      case 4
      then show ?thesis using C[OF k] i j kl ij by (simp add: key_Swap)
    next
      case 5
      then show ?thesis using A[OF k] i j kl pk pkj by (simp add: key_Swap)
    qed
  qed
  have 2: "key (Swap h i j) k \<le> key (Swap h i j) (parent j)"
    if k: "k < n" and pkj: "parent k = j" for k
  proof -
    have kl: "k < length h" using k n by simp
    have "j \<noteq> 0" using ij by simp
    then have kj: "j < k" using pkj parent_less[of k] parent_fix[of k] by (cases "k = 0") auto
    have "key h k \<le> key h j" using A[OF k] pkj ij by simp
    then show ?thesis using i j kl kj ij pj by (simp add: key_Swap)
  qed
  show ?thesis
    unfolding down_inv_def j_def[symmetric] using n 1 2 by auto
qed

lemma down_loop_heap_ok: "down_inv h i n \<Longrightarrow> heap_ok (fst (down_loop h i n)) n"
proof (induction h i n rule: down_induct)
  case (step h i n)
  have A: "\<And>k. k < n \<Longrightarrow> parent k \<noteq> i \<Longrightarrow> key h k \<le> key h (parent k)"
    using step.prems by (auto simp: down_inv_def)
  show ?case
  proof (cases "2 * i + 1 < n")
    case False
    then have eq: "down_loop h i n = (h, i)" by (subst down_unfold) simp
    have "key h k \<le> key h (parent k)" if k: "k < n" for k
    proof (cases "parent k = i")
      case True
      then have "k = i" using parent_child[OF True] k False by auto
      then show ?thesis using True by simp
    next
      case False
      then show ?thesis using A[OF k] by simp
    qed
    then show ?thesis by (simp add: eq heap_ok_def)
  next
    case c: True
    show ?thesis
    proof (cases "Less h (bigchild h i n) i")
      case False
      then have eq: "down_loop h i n = (h, i)" by (subst down_unfold) simp
      have le: "key h (bigchild h i n) \<le> key h i" using False by (simp add: Less_key)
      have "key h k \<le> key h (parent k)" if k: "k < n" for k
      proof (cases "parent k = i")
        case True
        show ?thesis
        proof (cases "k = i")
          case True
          then show ?thesis using \<open>parent k = i\<close> by simp
        next
          case F: False
          have "key h k \<le> key h (bigchild h i n)"
            using bigchild_props(4)[OF c k True F] .
          then show ?thesis using le True by simp
        qed
      next
        case False
        then show ?thesis using A[OF k] by simp
      qed
      then show ?thesis by (simp add: eq heap_ok_def)
    next
      case True
      then have eq: "down_loop h i n = down_loop (Swap h i (bigchild h i n)) (bigchild h i n) n"
        using c by (subst down_unfold) simp
      have "down_inv (Swap h i (bigchild h i n)) (bigchild h i n) n"
        using down_inv_step[OF step.prems c] True by (simp add: Less_key)
      with step.IH c True show ?thesis by (simp add: eq)
    qed
  qed
qed

lemma heap_ok_root: "heap_ok h n \<Longrightarrow> k < n \<Longrightarrow> key h k \<le> key h 0"
proof (induction k rule: less_induct)
  case (less k)
  show ?case
  proof (cases "k = 0")
    case True
    then show ?thesis by simp
  next
    case False
    then have pl: "parent k < k" using parent_less by simp
    have "key h k \<le> key h (parent k)" using less.prems by (simp add: heap_ok_def)
    moreover have "key h (parent k) \<le> key h 0" using less.IH[OF pl less.prems(1)] pl less.prems(2) by simp
    ultimately show ?thesis by simp
  qed
qed

subsection \<open>Pushing on and popping from the heap\<close>

lemma infos_rawQueue_Push [simp]: "infos (rawQueue_Push h x) = infos h @ [ChainInfo x]"
  by (simp add: rawQueue_Push_def infos_def Let_def)

lemma length_rawQueue_Push [simp]: "length (rawQueue_Push h x) = Suc (length h)"
  by (simp add: rawQueue_Push_def Let_def)

lemma key_rawQueue_Push:
  "key (rawQueue_Push h x) k = (if k < length h then key h k else if k = length h then Height (ChainInfo x) else key (rawQueue_Push h x) k)"
  by (simp add: rawQueue_Push_def Let_def key_def nth_append)

lemma length_heap_Push [simp]: "length (heap_Push h x) = Suc (length h)"
  by (simp add: heap_Push_def Let_def)

lemma mset_infos_heap_Push:
  "mset (infos (heap_Push h x)) = add_mset (ChainInfo x) (mset (infos h))"
  by (simp add: heap_Push_def Let_def mset_infos_up)

lemma heap_ok_heap_Push:
  assumes "heap_ok h (length h)"
  shows "heap_ok (heap_Push h x) (Suc (length h))"
proof -
  define h1 where "h1 = rawQueue_Push h x"
  have len: "length h1 = Suc (length h)" by (simp add: h1_def)
  have old: "key h1 k = key h k" if "k < length h" for k
    using that by (simp add: h1_def key_rawQueue_Push)
  have 1: "key h1 k \<le> key h1 (parent k)" if k: "k < length h1" and ne: "k \<noteq> length h" for k
  proof -
    have kl: "k < length h" using k ne len by simp
    then have "parent k < length h" by (rule parent_lt_length)
    then show ?thesis using assms kl old by (simp add: heap_ok_def)
  qed
  have 2: "key h1 k \<le> key h1 (parent (length h))" if k: "k < length h1" and pk: "parent k = length h" for k
  proof -
    have "k = length h" using k pk parent_le[of k] len by simp
    then show ?thesis using pk by simp
  qed
  have "up_inv h1 (length h)"
    unfolding up_inv_def using len 1 2 by auto
  from up_heap_ok[OF this] show ?thesis
    by (simp add: heap_Push_def Let_def h1_def[symmetric] len)
qed

lemma heap_Pop_spec:
  assumes ok: "heap_ok h (length h)" and ne: "h \<noteq> []"
  shows "\<exists>item rest. heap_Pop h = Some (item, rest) \<and>
           ChainInfo item = ChainInfo (h ! 0) \<and> index item = - 1 \<and>
           length rest = length h - 1 \<and>
           mset (infos h) = add_mset (ChainInfo item) (mset (infos rest)) \<and>
           heap_ok rest (length rest)"
proof -
  define n where "n = length h - 1"
  define h1 where "h1 = Swap h 0 n"
  define h2 where "h2 = fst (down h1 0 n)"
  have n: "n < length h" using ne by (simp add: n_def)
  have z: "0 < length h" using ne by simp
  have h2: "h2 = fst (down_loop h1 0 n)"
    by (simp add: h2_def down_def split: prod.splits)
  have len1: "length h1 = length h" by (simp add: h1_def)
  have len2: "length h2 = length h" by (simp add: h2 len1)
  have pop0: "heap_Pop h = rawQueue_Pop h2"
    unfolding heap_Pop_def Let_def h2_def h1_def n_def using ne by simp
  have l2: "length h2 - 1 = n" and ne2: "length h2 \<noteq> 0"
    using ne by (simp_all add: len2 n_def)
  have "rawQueue_Pop h2 = Some ((h2 ! n)\<lparr>index := - 1\<rparr>, take n h2)"
    unfolding rawQueue_Pop_def Let_def l2 using ne2 by simp
  with pop0 have pop: "heap_Pop h = Some ((h2 ! n)\<lparr>index := - 1\<rparr>, take n h2)"
    by simp
  have last: "h2 ! n = h1 ! n" unfolding h2 by (rule down_loop_above) simp
  have "infos h1 ! n = infos h ! 0"
    using n z by (simp add: h1_def infos_Swap)
  then have ci: "ChainInfo (h2 ! n) = ChainInfo (h ! 0)"
    using n z last len1 by (simp add: infos_def)
  have m: "mset (infos h2) = mset (infos h)"
    unfolding h2 using n z len1 by (simp add: mset_infos_down_loop h1_def mset_infos_Swap)
  have "h2 = take n h2 @ [h2 ! n]"
    using n len2 by (metis Suc_pred' n_def take_Suc_conv_app_nth take_all_iff le_refl z)
  then have "infos h2 = infos (take n h2) @ [ChainInfo (h2 ! n)]"
    by (metis infos_def list.simps(8,9) map_append)
  then have m2: "mset (infos h) = add_mset (ChainInfo (h2 ! n)) (mset (infos (take n h2)))"
    using m by simp
  have inv: "down_inv h1 0 n"
  proof -
    have "key h1 k \<le> key h1 (parent k)" if k: "k < n" and pk: "parent k \<noteq> 0" for k
    proof -
      have k0: "k \<noteq> 0" using pk parent_fix[of k] by (cases "k = 0") auto
      have kl: "k < length h" using k n by simp
      have pl: "parent k < k" using k0 parent_less by simp
      have "key h k \<le> key h (parent k)" using ok kl by (simp add: heap_ok_def)
      then show ?thesis using k kl pl pk k0 n z by (simp add: h1_def key_Swap)
    qed
    then show ?thesis using n len1 by (auto simp: down_inv_def)
  qed
  have ok2: "heap_ok h2 n" unfolding h2 by (rule down_loop_heap_ok[OF inv])
  have "heap_ok (take n h2) n"
    unfolding heap_ok_def
  proof (intro allI impI)
    fix k assume k: "k < n"
    then have "parent k < n" using parent_le[of k] by simp
    then show "key (take n h2) k \<le> key (take n h2) (parent k)"
      using ok2 k by (simp add: heap_ok_def key_def)
  qed
  then show ?thesis
    using pop ci m2 n len2 by (simp add: n_def)
qed

lemma heap_ok_max:
  assumes "heap_ok h (length h)" and "c \<in> set (infos h)"
  shows "Height c \<le> Height (ChainInfo (h ! 0))"
proof -
  from assms(2) obtain k where k: "k < length h" and c: "c = infos h ! k"
    by (metis in_set_conv_nth length_infos)
  have "key h k \<le> key h 0" using heap_ok_root[OF assms(1) k] .
  then show ?thesis using k c by (simp add: key_def infos_def)
qed

subsection \<open>The invariant of the target queue\<close>

lemma inj_String: "inj String"
  by (rule injI) (metis String.elims TipSetKey.inject)

lemma String_eq_iff [simp]: "String a = String b \<longleftrightarrow> a = b"
  using inj_String by (auto dest: injD)

lemma NewTargetQueue_eq: "NewTargetQueue = \<lparr>q = [], targetSet = {}\<rparr>"
  by (simp add: NewTargetQueue_def heap_Init_def)

lemma tq_inv_New: "tq_inv NewTargetQueue"
  by (simp add: NewTargetQueue_eq tq_inv_def heap_ok_def keys_def infos_def)

lemma keys_mset: "mset (keys h) = image_mset (\<lambda>c. String (Head c)) (mset (infos h))"
  by (simp add: keys_def)

lemma Push_member:
  "String (Head (ChainInfo req)) \<in> targetSet tq \<Longrightarrow> TargetQueue_Push tq req = tq"
  by (simp add: TargetQueue_Push_def)

lemma Push_fresh:
  assumes "tq_inv tq" and "String (Head (ChainInfo req)) \<notin> targetSet tq"
  shows "tq_inv (TargetQueue_Push tq req)"
    and "mset (infos (q (TargetQueue_Push tq req))) = add_mset (ChainInfo req) (mset (infos (q tq)))"
    and "targetSet (TargetQueue_Push tq req) = insert (String (Head (ChainInfo req))) (targetSet tq)"
    and "length (q (TargetQueue_Push tq req)) = Suc (length (q tq))"
proof -
  let ?h = "heap_Push (q tq) req"
  have eq: "TargetQueue_Push tq req =
      tq\<lparr>q := ?h, targetSet := insert (String (Head (ChainInfo req))) (targetSet tq)\<rparr>"
    using assms(2) by (simp add: TargetQueue_Push_def)
  have m: "mset (infos ?h) = add_mset (ChainInfo req) (mset (infos (q tq)))"
    by (rule mset_infos_heap_Push)
  have mk: "mset (keys ?h) = add_mset (String (Head (ChainInfo req))) (mset (keys (q tq)))"
    by (simp add: keys_mset m)
  have ok: "heap_ok ?h (length ?h)"
    using assms(1) heap_ok_heap_Push by (simp add: tq_inv_def)
  have d0: "distinct (keys (q tq))" and ts: "targetSet tq = set (keys (q tq))"
    using assms(1) by (simp_all add: tq_inv_def)
  have "distinct (String (Head (ChainInfo req)) # keys (q tq))"
    using d0 ts assms(2) by simp
  then have d: "distinct (keys ?h)"
    using mk by (metis mset.simps(2) mset_eq_imp_distinct_iff)
  have s: "set (keys ?h) = insert (String (Head (ChainInfo req))) (set (keys (q tq)))"
    using mk by (metis mset.simps(2) mset_eq_setD list.simps(15))
  show "tq_inv (TargetQueue_Push tq req)"
    using ok d s ts by (simp add: eq tq_inv_def)
  show "mset (infos (q (TargetQueue_Push tq req))) = add_mset (ChainInfo req) (mset (infos (q tq)))"
    using m by (simp add: eq)
  show "targetSet (TargetQueue_Push tq req) = insert (String (Head (ChainInfo req))) (targetSet tq)"
    by (simp add: eq)
  show "length (q (TargetQueue_Push tq req)) = Suc (length (q tq))"
    by (simp add: eq)
qed

lemma tq_inv_Push: "tq_inv tq \<Longrightarrow> tq_inv (TargetQueue_Push tq req)"
  by (cases "String (Head (ChainInfo req)) \<in> targetSet tq")
     (simp_all add: Push_member Push_fresh(1))

lemma Pop_empty:
  "q tq = [] \<Longrightarrow> TargetQueue_Pop tq = Some ((SyncRequest_zero, False), tq)"
  by (simp add: TargetQueue_Pop_def TargetQueue_Len_def rawQueue_Len_def)

lemma Pop_nonempty:
  assumes inv: "tq_inv tq" and ne: "q tq \<noteq> []"
  shows "\<exists>req tq1. TargetQueue_Pop tq = Some ((req, True), tq1) \<and> tq_inv tq1 \<and>
           index req = - 1 \<and>
           length (q tq1) = length (q tq) - 1 \<and>
           mset (infos (q tq)) = add_mset (ChainInfo req) (mset (infos (q tq1))) \<and>
           targetSet tq1 = targetSet tq - {String (Head (ChainInfo req))} \<and>
           (\<forall>c \<in> set (infos (q tq)). Height c \<le> Height (ChainInfo req))"
proof -
  have ok: "heap_ok (q tq) (length (q tq))" and d: "distinct (keys (q tq))"
    and ts: "targetSet tq = set (keys (q tq))"
    using inv by (simp_all add: tq_inv_def)
  from heap_Pop_spec[OF ok ne] obtain item rest where
    pop: "heap_Pop (q tq) = Some (item, rest)" and ci: "ChainInfo item = ChainInfo (q tq ! 0)"
    and ix: "index item = - 1" and len: "length rest = length (q tq) - 1"
    and m: "mset (infos (q tq)) = add_mset (ChainInfo item) (mset (infos rest))"
    and ok': "heap_ok rest (length rest)"
    by blast
  define tq1 where "tq1 = tq\<lparr>q := rest, targetSet := targetSet tq - {String (Head (ChainInfo item))}\<rparr>"
  have P: "TargetQueue_Pop tq = Some ((item, True), tq1)"
    using ne pop by (simp add: TargetQueue_Pop_def TargetQueue_Len_def rawQueue_Len_def tq1_def)
  have mk: "mset (keys (q tq)) = add_mset (String (Head (ChainInfo item))) (mset (keys rest))"
    by (simp add: keys_mset m)
  then have "mset (keys (q tq)) = mset (String (Head (ChainInfo item)) # keys rest)"
    by simp
  then have d2: "distinct (String (Head (ChainInfo item)) # keys rest)"
    and s2: "set (keys (q tq)) = set (String (Head (ChainInfo item)) # keys rest)"
    using d mset_eq_imp_distinct_iff mset_eq_setD by blast+
  have "targetSet tq - {String (Head (ChainInfo item))} = set (keys rest)"
    using d2 s2 ts by auto
  then have inv1: "tq_inv tq1"
    using ok' d2 by (simp add: tq_inv_def tq1_def)
  have mx: "\<forall>c \<in> set (infos (q tq)). Height c \<le> Height (ChainInfo item)"
    using heap_ok_max[OF ok] ci by simp
  show ?thesis
    using P inv1 ix len m mx by (auto simp: tq1_def)
qed

lemma length_down: "length (fst (down h i n)) = length h"
  by (simp add: down_def split: prod.splits) (metis fst_conv length_down_loop)

lemma Pop_no_panic: "\<exists>r tq1. TargetQueue_Pop tq = Some (r, tq1)"
proof (cases "q tq = []")
  case True
  from Pop_empty[OF this] show ?thesis by blast
next
  case False
  then have "length (q tq) \<noteq> 0" by simp
  then have "length (fst (down (Swap (q tq) 0 (length (q tq) - 1)) 0 (length (q tq) - 1))) \<noteq> 0"
    by (simp add: length_down)
  then have "\<exists>x. rawQueue_Pop (fst (down (Swap (q tq) 0 (length (q tq) - 1)) 0 (length (q tq) - 1))) = Some x"
    unfolding rawQueue_Pop_def Let_def by simp
  then obtain x where "heap_Pop (q tq) = Some x"
    using False unfolding heap_Pop_def Let_def by auto
  then show ?thesis
    using False by (cases x) (auto simp: TargetQueue_Pop_def TargetQueue_Len_def rawQueue_Len_def)
qed

lemma pops_spec:
  "tq_inv tq \<Longrightarrow> k = length (q tq) \<Longrightarrow>
   \<exists>out tq1. pops k tq = Some (out, tq1) \<and> length out = k \<and> (\<forall>r \<in> set out. snd r) \<and>
     q tq1 = [] \<and> targetSet tq1 = {} \<and>
     mset (map (\<lambda>r. ChainInfo (fst r)) out) = mset (infos (q tq)) \<and>
     sorted_wrt (\<ge>) (map (\<lambda>r. Height (ChainInfo (fst r))) out)"
proof (induction k arbitrary: tq)
  case 0
  then show ?case by (simp add: tq_inv_def keys_def infos_def)
next
  case (Suc k)
  then have ne: "q tq \<noteq> []" by auto
  from Pop_nonempty[OF Suc.prems(1) ne] obtain req tq1 where
    P: "TargetQueue_Pop tq = Some ((req, True), tq1)" and inv1: "tq_inv tq1"
    and len: "length (q tq1) = length (q tq) - 1"
    and m: "mset (infos (q tq)) = add_mset (ChainInfo req) (mset (infos (q tq1)))"
    and mx: "\<forall>c \<in> set (infos (q tq)). Height c \<le> Height (ChainInfo req)"
    by blast
  have k: "k = length (q tq1)" using len Suc.prems(2) by simp
  from Suc.IH[OF inv1 k] obtain out tq2 where
    R: "pops k tq1 = Some (out, tq2)" and lo: "length out = k" and fl: "\<forall>r \<in> set out. snd r"
    and e: "q tq2 = []" "targetSet tq2 = {}"
    and m2: "mset (map (\<lambda>r. ChainInfo (fst r)) out) = mset (infos (q tq1))"
    and so: "sorted_wrt (\<ge>) (map (\<lambda>r. Height (ChainInfo (fst r))) out)"
    by blast
  have sub: "set (map (\<lambda>r. ChainInfo (fst r)) out) \<subseteq> set (infos (q tq))"
    using m m2 by (metis mset_eq_setD set_mset_mset set_mset_add_mset_insert subset_insertI)
  have "\<forall>r \<in> set out. Height (ChainInfo (fst r)) \<le> Height (ChainInfo req)"
    using sub mx by auto
  then have "sorted_wrt (\<ge>) (map (\<lambda>r. Height (ChainInfo (fst r))) ((req, True) # out))"
    using so by auto
  moreover have "pops (Suc k) tq = Some ((req, True) # out, tq2)"
    using P R by simp
  ultimately show ?case
    using lo fl e m m2 by auto
qed

lemma pushes_spec:
  "tq_inv tq \<Longrightarrow> distinct (map (\<lambda>r. Head (ChainInfo r)) reqs) \<Longrightarrow>
   (\<forall>r \<in> set reqs. String (Head (ChainInfo r)) \<notin> targetSet tq) \<Longrightarrow>
   tq_inv (pushes tq reqs) \<and>
   mset (infos (q (pushes tq reqs))) = mset (infos (q tq)) + mset (map ChainInfo reqs) \<and>
   length (q (pushes tq reqs)) = length (q tq) + length reqs"
proof (induction reqs arbitrary: tq)
  case Nil
  then show ?case by (simp add: pushes_def)
next
  case (Cons r reqs)
  have fresh: "String (Head (ChainInfo r)) \<notin> targetSet tq" using Cons.prems(3) by simp
  note pf = Push_fresh[OF Cons.prems(1) fresh]
  have "\<forall>x \<in> set reqs. String (Head (ChainInfo x)) \<notin> targetSet (TargetQueue_Push tq r)"
  proof
    fix x assume x: "x \<in> set reqs"
    have "Head (ChainInfo r) \<notin> (\<lambda>r. Head (ChainInfo r)) ` set reqs"
      using Cons.prems(2) by simp
    then have "Head (ChainInfo x) \<noteq> Head (ChainInfo r)"
      using x by (metis image_eqI)
    then show "String (Head (ChainInfo x)) \<notin> targetSet (TargetQueue_Push tq r)"
      using Cons.prems(3) x by (simp add: pf(3))
  qed
  from Cons.IH[OF pf(1) _ this] Cons.prems(2)
  show ?case by (simp add: pushes_def pf(2,4))
qed

subsection \<open>The loop of maybeFireCbs\<close>

lemma enumerate_snoc: "enumerate k (xs @ [x]) = enumerate k xs @ [(k + length xs, x)]"
  by (simp add: enumerate_append_eq)

lemma maybeFireCbs_loop_eq:
  "maybeFireCbs_loop d =
     (map int (filter (\<lambda>i. opc_start (onProcessedCountCbs d ! i) + opc_n (onProcessedCountCbs d ! i) = syncReqCount d)
         [0..<length (onProcessedCountCbs d)]),
      map (\<lambda>c. Fired (opc_cb c))
        (filter (\<lambda>c. opc_start c + opc_n c = syncReqCount d) (onProcessedCountCbs d)))"
proof -
  define c where "c = syncReqCount d"
  define step where "step = (\<lambda>(removedIdxs :: int list, evs :: 'a event list) (i :: nat, opcCb :: 'a onProcessedCountCb).
              if opc_start opcCb + opc_n opcCb = c
              then (removedIdxs @ [int i], evs @ [Fired (opc_cb opcCb)])
              else (removedIdxs, evs))"
  have "foldl step ([], []) (enumerate 0 xs) =
     (map int (filter (\<lambda>i. opc_start (xs ! i) + opc_n (xs ! i) = c) [0..<length xs]),
      map (\<lambda>c. Fired (opc_cb c)) (filter (\<lambda>x. opc_start x + opc_n x = c) xs))" for xs
  proof (induction xs rule: rev_induct)
    case Nil
    then show ?case by simp
  next
    case (snoc x xs)
    have "filter (\<lambda>i. opc_start ((xs @ [x]) ! i) + opc_n ((xs @ [x]) ! i) = c) [0..<length xs]
        = filter (\<lambda>i. opc_start (xs ! i) + opc_n (xs ! i) = c) [0..<length xs]"
      by (rule filter_cong) (auto simp: nth_append)
    then show ?case
      using snoc by (simp add: enumerate_snoc step_def)
  qed
  then show ?thesis
    by (simp add: maybeFireCbs_loop_def step_def c_def)
qed

subsection \<open>Sequences of operations\<close>

lemma tq_inv_Pop: "tq_inv tq \<Longrightarrow> TargetQueue_Pop tq = Some (r, tq1) \<Longrightarrow> tq_inv tq1"
proof (cases "q tq = []")
  case True
  assume "tq_inv tq" "TargetQueue_Pop tq = Some (r, tq1)"
  then show ?thesis using Pop_empty[OF True] by simp
next
  case False
  assume a: "tq_inv tq" "TargetQueue_Pop tq = Some (r, tq1)"
  from Pop_nonempty[OF a(1) False] a(2) show ?thesis by auto
qed

lemma apply_ops_inv: "tq_inv tq \<Longrightarrow> \<exists>tq1. apply_ops ops tq = Some tq1 \<and> tq_inv tq1"
proof (induction ops arbitrary: tq)
  case Nil
  then show ?case by simp
next
  case (Cons op ops)
  show ?case
  proof (cases op)
    case (Push r)
    then show ?thesis using Cons.IH[OF tq_inv_Push[OF Cons.prems]] by simp
  next
    case Pop
    obtain r tq1 where P: "TargetQueue_Pop tq = Some (r, tq1)" using Pop_no_panic by blast
    from Cons.IH[OF tq_inv_Pop[OF Cons.prems P]] show ?thesis using Pop P by simp
  qed
qed

lemma apply_ops_reach_inv: "apply_ops ops NewTargetQueue = Some tq \<Longrightarrow> tq_inv tq"
  using apply_ops_inv[OF tq_inv_New, of ops] by auto

lemma tq_inv_sizes:
  assumes "tq_inv tq"
  shows "card (targetSet tq) = length (q tq)"
    and "distinct (map (\<lambda>r. Head (ChainInfo r)) (q tq))"
    and "targetSet tq = (\<lambda>r. String (Head (ChainInfo r))) ` set (q tq)"
proof -
  have d: "distinct (keys (q tq))" and ts: "targetSet tq = set (keys (q tq))"
    using assms by (simp_all add: tq_inv_def)
  show "card (targetSet tq) = length (q tq)"
    using distinct_card[OF d] by (simp add: ts keys_def infos_def)
  have "keys (q tq) = map String (map (\<lambda>r. Head (ChainInfo r)) (q tq))"
    by (simp add: keys_def infos_def)
  then show "distinct (map (\<lambda>r. Head (ChainInfo r)) (q tq))"
    using d by (metis distinct_map)
  show "targetSet tq = (\<lambda>r. String (Head (ChainInfo r))) ` set (q tq)"
    by (auto simp: ts keys_def infos_def)
qed

lemma Len_eq: "TargetQueue_Len tq = int (length (q tq))"
  by (simp add: TargetQueue_Len_def rawQueue_Len_def)

lemma sorted_wrt_ge_distinct:
  fixes xs :: "'a::linorder list"
  shows "sorted_wrt (\<ge>) xs \<Longrightarrow> distinct xs \<Longrightarrow> sorted_wrt (>) xs"
  by (induction xs) (auto simp: less_le)

lemma desc_unique:
  fixes xs :: "'a::linorder list"
  assumes "sorted_wrt (\<ge>) xs" and "mset xs = mset ys"
  shows "xs = rev (sort ys)"
proof -
  have "sorted (rev xs)" using assms(1) by (simp add: sorted_wrt_rev)
  moreover have "mset (rev xs) = mset ys" using assms(2) by simp
  ultimately have "sort ys = rev xs" by (metis properties_for_sort)
  then show ?thesis by simp
qed

lemma pushes_pops:
  assumes d: "distinct (map (\<lambda>r. Head (ChainInfo r)) reqs)"
  shows "\<exists>out tq. pops (length reqs) (pushes NewTargetQueue reqs) = Some (out, tq) \<and>
     length (q (pushes NewTargetQueue reqs)) = length reqs \<and>
     length out = length reqs \<and> (\<forall>r \<in> set out. snd r) \<and> q tq = [] \<and> targetSet tq = {} \<and>
     mset (map (\<lambda>r. ChainInfo (fst r)) out) = mset (map ChainInfo reqs) \<and>
     sorted_wrt (\<ge>) (map (\<lambda>r. Height (ChainInfo (fst r))) out)"
proof -
  have "\<forall>r \<in> set reqs. String (Head (ChainInfo r)) \<notin> targetSet NewTargetQueue"
    by (simp add: NewTargetQueue_eq)
  from pushes_spec[OF tq_inv_New d this]
  have inv: "tq_inv (pushes NewTargetQueue reqs)"
    and m: "mset (infos (q (pushes NewTargetQueue reqs))) = mset (map ChainInfo reqs)"
    and len: "length (q (pushes NewTargetQueue reqs)) = length reqs"
    by (simp_all add: NewTargetQueue_eq infos_def)
  from pops_spec[OF inv len[symmetric]] show ?thesis
    using m len by auto
qed

lemma all_True_replicate: "\<forall>r \<in> set out. snd r \<Longrightarrow> map snd out = replicate (length out) True"
  by (induction out) auto

section \<open>The claims\<close>

subsection \<open>C4: the order of the pops\<close>

lemma pops_equal_heights:
  "pops 2 (pushes NewTargetQueue [testRequest ''a'' 1, testRequest ''b'' 1]) =
     Some ([(\<lparr>ChainInfo = \<lparr>Head = TipSetKey ''a'', Height = 1\<rparr>, index = - 1\<rparr>, True),
            (\<lparr>ChainInfo = \<lparr>Head = TipSetKey ''b'', Height = 1\<rparr>, index = - 1\<rparr>, True)],
           \<lparr>q = [], targetSet = {}\<rparr>)"
  by code_simp

text \<open>
  C4, as stated, fails: two requests with the distinct heads \<open>a\<close> and \<open>b\<close> and the same
  height 1 are popped one after the other, and 1, 1 is not strictly descending.
\<close>

theorem TargetQueue_pops_not_strict:
  "distinct (map (\<lambda>r. Head (ChainInfo r)) [testRequest ''a'' 1, testRequest ''b'' 1]) \<and>
   (\<exists>out tq.
      pops 2 (pushes NewTargetQueue [testRequest ''a'' 1, testRequest ''b'' 1]) = Some (out, tq) \<and>
      \<not> sorted_wrt (>) (heights out))"
proof
  show "distinct (map (\<lambda>r. Head (ChainInfo r)) [testRequest ''a'' 1, testRequest ''b'' 1])"
    by (simp add: testRequest_def receive_def)
  show "\<exists>out tq.
      pops 2 (pushes NewTargetQueue [testRequest ''a'' 1, testRequest ''b'' 1]) = Some (out, tq) \<and>
      \<not> sorted_wrt (>) (heights out)"
    unfolding pops_equal_heights by (simp add: heights_def)
qed

text \<open>
  C4, amended: for every sequence of \<open>Push\<close> calls whose requests have distinct heads, the
  queue then holds them all, and as many \<open>Pop\<close> calls return exactly the pushed
  \<open>ChainInfo\<close>s, each with the flag true, in non-increasing order of \<open>Height\<close>, and leave
  the queue empty; the order is strictly descending when the heights are distinct too.
  In particular the heights 2, 47, 0, 1 are popped as 47, 2, 1, 0.
\<close>

theorem TargetQueue_pops_descending:
  assumes "distinct (map (\<lambda>r. Head (ChainInfo r)) reqs)"
  shows "\<exists>out tq. pops (length reqs) (pushes NewTargetQueue reqs) = Some (out, tq) \<and>
     TargetQueue_Len (pushes NewTargetQueue reqs) = int (length reqs) \<and>
     map snd out = replicate (length reqs) True \<and>
     mset (map (\<lambda>r. ChainInfo (fst r)) out) = mset (map ChainInfo reqs) \<and>
     sorted_wrt (\<ge>) (heights out) \<and>
     (distinct (map (\<lambda>r. Height (ChainInfo r)) reqs) \<longrightarrow> sorted_wrt (>) (heights out)) \<and>
     (map (\<lambda>r. Height (ChainInfo r)) reqs = [2, 47, 0, 1] \<longrightarrow> heights out = [47, 2, 1, 0]) \<and>
     TargetQueue_Len tq = 0"
proof -
  from pushes_pops[OF assms] obtain out tq where
    P: "pops (length reqs) (pushes NewTargetQueue reqs) = Some (out, tq)"
    and len: "length (q (pushes NewTargetQueue reqs)) = length reqs"
    and lo: "length out = length reqs" and fl: "\<forall>r \<in> set out. snd r"
    and e: "q tq = []"
    and m: "mset (map (\<lambda>r. ChainInfo (fst r)) out) = mset (map ChainInfo reqs)"
    and s: "sorted_wrt (\<ge>) (heights out)"
    unfolding heights_def by blast
  have flags: "map snd out = replicate (length reqs) True"
    using all_True_replicate[OF fl] lo by simp
  have "mset (map Height (map (\<lambda>r. ChainInfo (fst r)) out)) = mset (map Height (map ChainInfo reqs))"
    using m by (metis mset_map)
  then have mh: "mset (heights out) = mset (map (\<lambda>r. Height (ChainInfo r)) reqs)"
    by (simp add: heights_def comp_def)
  have strict: "sorted_wrt (>) (heights out)" if "distinct (map (\<lambda>r. Height (ChainInfo r)) reqs)"
  proof -
    have "distinct (heights out)" using that mh by (metis mset_eq_imp_distinct_iff)
    with s show ?thesis by (rule sorted_wrt_ge_distinct)
  qed
  have scen: "heights out = [47, 2, 1, 0]" if "map (\<lambda>r. Height (ChainInfo r)) reqs = [2, 47, 0, 1]"
  proof -
    have "mset (heights out) = mset [2, 47, 0, 1 :: uint64]"
      using mh that by simp
    from desc_unique[OF s this] have "heights out = rev (sort [2, 47, 0, 1 :: uint64])" .
    moreover have "sort [2, 47, 0, 1 :: uint64] = [0, 1, 2, 47]"
      by code_simp
    ultimately show ?thesis by simp
  qed
  show ?thesis
    by (intro exI[of _ out] exI[of _ tq] conjI impI)
       (use P len flags m s strict scen e in \<open>simp_all add: Len_eq\<close>)
qed

theorem TargetQueue_pops_descending_witness:
  "distinct (map (\<lambda>r. Head (ChainInfo r)) happy) \<and>
   (\<exists>out tq. pops 4 (pushes NewTargetQueue happy) = Some (out, tq) \<and>
      TargetQueue_Len (pushes NewTargetQueue happy) = 4 \<and>
      map snd out = [True, True, True, True] \<and>
      heights out = [47, 2, 1, 0] \<and> TargetQueue_Len tq = 0)"
proof -
  have d: "distinct (map (\<lambda>r. Head (ChainInfo r)) happy)"
    by (simp add: happy_def testRequest_def receive_def)
  have h: "map (\<lambda>r. Height (ChainInfo r)) happy = [2, 47, 0, 1]"
    by (simp add: happy_def testRequest_def receive_def)
  have l: "length happy = 4" by (simp add: happy_def)
  have r: "replicate 4 True = [True, True, True, True]" by (simp add: numeral_eq_Suc)
  from TargetQueue_pops_descending[OF d] show ?thesis
    unfolding l r using d h by auto
qed

subsection \<open>C10: the heads popped are the heads pushed\<close>

text \<open>
  C10: for requests with pairwise distinct heads, pushed on a fresh queue in any order
  \<open>order\<close>, as many pops all succeed, return every pushed head exactly once and no other,
  and leave the queue empty (the next \<open>Pop\<close> returns false).
\<close>

theorem TargetQueue_heads_exact:
  assumes "distinct (map (\<lambda>r. Head (ChainInfo r)) reqs)" and "mset order = mset reqs"
  shows "\<exists>out tq. pops (length reqs) (pushes NewTargetQueue order) = Some (out, tq) \<and>
     map snd out = replicate (length reqs) True \<and>
     distinct (map (\<lambda>r. Head (ChainInfo (fst r))) out) \<and>
     set (map (\<lambda>r. Head (ChainInfo (fst r))) out) = (\<lambda>r. Head (ChainInfo r)) ` set reqs \<and>
     TargetQueue_Pop tq = Some ((SyncRequest_zero, False), tq)"
proof -
  have mo: "mset (map (\<lambda>r. Head (ChainInfo r)) order) = mset (map (\<lambda>r. Head (ChainInfo r)) reqs)"
    using assms(2) by simp
  then have d: "distinct (map (\<lambda>r. Head (ChainInfo r)) order)"
    using assms(1) by (metis mset_eq_imp_distinct_iff)
  have lo: "length order = length reqs"
    using assms(2) by (metis size_mset)
  from pushes_pops[OF d] obtain out tq where
    P: "pops (length reqs) (pushes NewTargetQueue order) = Some (out, tq)"
    and l: "length out = length reqs" and fl: "\<forall>r \<in> set out. snd r"
    and e: "q tq = []"
    and m: "mset (map (\<lambda>r. ChainInfo (fst r)) out) = mset (map ChainInfo order)"
    unfolding lo by blast
  have flags: "map snd out = replicate (length reqs) True"
    using all_True_replicate[OF fl] l by simp
  have "mset (map Head (map (\<lambda>r. ChainInfo (fst r)) out)) = mset (map Head (map ChainInfo order))"
    using m by (metis mset_map)
  then have mh: "mset (map (\<lambda>r. Head (ChainInfo (fst r))) out) = mset (map (\<lambda>r. Head (ChainInfo r)) reqs)"
    using mo by (simp add: comp_def)
  have dh: "distinct (map (\<lambda>r. Head (ChainInfo (fst r))) out)"
    using mh assms(1) by (metis mset_eq_imp_distinct_iff)
  have "set (map (\<lambda>r. Head (ChainInfo (fst r))) out) = set (map (\<lambda>r. Head (ChainInfo r)) reqs)"
    using mh by (rule mset_eq_setD)
  then have sh: "set (map (\<lambda>r. Head (ChainInfo (fst r))) out) = (\<lambda>r. Head (ChainInfo r)) ` set reqs"
    by simp
  show ?thesis
    using P flags dh sh Pop_empty[OF e] by blast
qed

theorem TargetQueue_heads_exact_witness:
  "distinct (map (\<lambda>r. Head (ChainInfo r)) happy) \<and> mset (rev happy) = mset happy \<and>
   (\<exists>out tq. pops 4 (pushes NewTargetQueue (rev happy)) = Some (out, tq) \<and>
      set (map (\<lambda>r. Head (ChainInfo (fst r))) out) =
        {TipSetKey ''2'', TipSetKey ''47'', TipSetKey ''0'', TipSetKey ''1''} \<and>
      distinct (map (\<lambda>r. Head (ChainInfo (fst r))) out) \<and>
      TargetQueue_Pop tq = Some ((SyncRequest_zero, False), tq))"
proof -
  have d: "distinct (map (\<lambda>r. Head (ChainInfo r)) happy)"
    by (simp add: happy_def testRequest_def receive_def)
  have m: "mset (rev happy) = mset happy" by simp
  have l: "length happy = 4" by (simp add: happy_def)
  have s: "(\<lambda>r. Head (ChainInfo r)) ` set happy =
      {TipSetKey ''2'', TipSetKey ''47'', TipSetKey ''0'', TipSetKey ''1''}"
    by (simp add: happy_def testRequest_def receive_def)
  from TargetQueue_heads_exact[OF d m] show ?thesis
    unfolding l s using d by auto
qed

subsection \<open>C5: the heap and the membership set in lockstep\<close>

text \<open>
  C5: every sequence of \<open>Push\<close> and \<open>Pop\<close> calls from the empty queue runs without a
  panic to a queue whose heap has as many entries as its membership set, with no two
  entries of the same head; the set is the set of the entries' keys.
\<close>

theorem TargetQueue_lockstep:
  "\<exists>tq. apply_ops ops NewTargetQueue = Some tq \<and>
     length (q tq) = card (targetSet tq) \<and>
     distinct (map (\<lambda>r. Head (ChainInfo r)) (q tq)) \<and>
     targetSet tq = (\<lambda>r. String (Head (ChainInfo r))) ` set (q tq)"
proof -
  from apply_ops_inv[OF tq_inv_New] obtain tq where
    a: "apply_ops ops NewTargetQueue = Some tq" and inv: "tq_inv tq"
    by blast
  show ?thesis
    using a tq_inv_sizes[OF inv] by auto
qed

lemma apply_ops_example:
  "apply_ops [Push (testRequest ''a'' 1), Push (testRequest ''b'' 2), Push (testRequest ''a'' 1),
              Pop, Push (testRequest ''c'' 3), Pop, Pop, Pop, Push (testRequest ''b'' 5)]
     NewTargetQueue =
   Some \<lparr>q = [\<lparr>ChainInfo = \<lparr>Head = TipSetKey ''b'', Height = 5\<rparr>, index = 0\<rparr>],
         targetSet = {''b''}\<rparr>"
  by code_simp

theorem TargetQueue_lockstep_witness:
  "\<exists>tq. apply_ops [Push (testRequest ''a'' 1), Push (testRequest ''b'' 2),
                     Push (testRequest ''a'' 1), Pop, Push (testRequest ''c'' 3), Pop, Pop, Pop,
                     Push (testRequest ''b'' 5)] NewTargetQueue = Some tq \<and>
     length (q tq) = 1 \<and> card (targetSet tq) = 1 \<and>
     distinct (map (\<lambda>r. Head (ChainInfo r)) (q tq))"
  using TargetQueue_lockstep[of "[Push (testRequest ''a'' 1), Push (testRequest ''b'' 2),
      Push (testRequest ''a'' 1), Pop, Push (testRequest ''c'' 3), Pop, Pop, Pop,
      Push (testRequest ''b'' 5)]"]
  unfolding apply_ops_example by simp

subsection \<open>C6: a head is queued once, and again after its pop\<close>

lemma singleton_queue:
  assumes "tq_inv tq" and "mset (infos (q tq)) = {#c#}"
  shows "map ChainInfo (q tq) = [c]"
  using assms(2) by (simp add: infos_def) (metis mset_single_iff_right mset_map mset.simps(1,2))

text \<open>
  C6: from the empty queue, after a push the length is 1; a second push of a request with
  the same head returns the queue as it was; the pop returns the request first pushed and
  empties the queue; a push of the same head then brings the length back to 1.
\<close>

theorem TargetQueue_duplicate_push:
  assumes "Head (ChainInfo r2) = Head (ChainInfo r1)" and "Head (ChainInfo r3) = Head (ChainInfo r1)"
  shows "TargetQueue_Len (TargetQueue_Push NewTargetQueue r1) = 1 \<and>
     TargetQueue_Push (TargetQueue_Push NewTargetQueue r1) r2 = TargetQueue_Push NewTargetQueue r1 \<and>
     TargetQueue_Len (TargetQueue_Push (TargetQueue_Push NewTargetQueue r1) r2) = 1 \<and>
     (\<exists>req tq.
        TargetQueue_Pop (TargetQueue_Push (TargetQueue_Push NewTargetQueue r1) r2) = Some ((req, True), tq) \<and>
        ChainInfo req = ChainInfo r1 \<and> TargetQueue_Len tq = 0 \<and>
        TargetQueue_Len (TargetQueue_Push tq r3) = 1 \<and>
        map ChainInfo (q (TargetQueue_Push tq r3)) = [ChainInfo r3])"
proof -
  define tq1 where "tq1 = TargetQueue_Push NewTargetQueue r1"
  have fresh: "String (Head (ChainInfo r1)) \<notin> targetSet NewTargetQueue"
    by (simp add: NewTargetQueue_eq)
  note p1 = Push_fresh[OF tq_inv_New fresh, folded tq1_def]
  have m1: "mset (infos (q tq1)) = {#ChainInfo r1#}"
    using p1(2) by (simp add: NewTargetQueue_eq infos_def)
  have s1: "targetSet tq1 = {String (Head (ChainInfo r1))}"
    using p1(3) by (simp add: NewTargetQueue_eq)
  have l1: "length (q tq1) = 1"
    using p1(4) by (simp add: NewTargetQueue_eq)
  have dup: "TargetQueue_Push tq1 r2 = tq1"
    by (rule Push_member) (simp add: s1 assms(1))
  have ne: "q tq1 \<noteq> []" using l1 by auto
  from Pop_nonempty[OF p1(1) ne] obtain req tq where
    P: "TargetQueue_Pop tq1 = Some ((req, True), tq)" and inv: "tq_inv tq"
    and l: "length (q tq) = length (q tq1) - 1"
    and m: "mset (infos (q tq1)) = add_mset (ChainInfo req) (mset (infos (q tq)))"
    and s: "targetSet tq = targetSet tq1 - {String (Head (ChainInfo req))}"
    by blast
  have e: "q tq = []" using l l1 by simp
  have ci: "ChainInfo req = ChainInfo r1"
    using m m1 e by (simp add: infos_def)
  have fresh3: "String (Head (ChainInfo r3)) \<notin> targetSet tq"
    using s s1 ci assms(2) by simp
  note p3 = Push_fresh[OF inv fresh3]
  have m3: "mset (infos (q (TargetQueue_Push tq r3))) = {#ChainInfo r3#}"
    using p3(2) e by (simp add: infos_def)
  have q3: "map ChainInfo (q (TargetQueue_Push tq r3)) = [ChainInfo r3]"
    by (rule singleton_queue[OF p3(1) m3])
  have l3: "length (q (TargetQueue_Push tq r3)) = 1"
    using p3(4) e by simp
  show ?thesis
    unfolding tq1_def[symmetric] dup
    using l1 P ci e l3 q3 by (auto simp: Len_eq)
qed

theorem TargetQueue_duplicate_push_witness:
  "TargetQueue_Len (TargetQueue_Push NewTargetQueue (testRequest ''0'' 0)) = 1 \<and>
   TargetQueue_Len
     (TargetQueue_Push (TargetQueue_Push NewTargetQueue (testRequest ''0'' 0)) (testRequest ''0'' 0)) = 1 \<and>
   (\<exists>req tq.
      TargetQueue_Pop
        (TargetQueue_Push (TargetQueue_Push NewTargetQueue (testRequest ''0'' 0)) (testRequest ''0'' 0)) =
        Some ((req, True), tq) \<and>
      Height (ChainInfo req) = 0 \<and>
      TargetQueue_Len (TargetQueue_Push tq (testRequest ''0'' 0)) = 1)"
  using TargetQueue_duplicate_push[of "testRequest ''0'' 0" "testRequest ''0'' 0" "testRequest ''0'' 0"]
  by (auto simp: testRequest_def receive_def)

subsection \<open>C7: the result of Pop\<close>

text \<open>
  C7: on a queue of length 0, \<open>Pop\<close> returns the zero request with the flag false and
  leaves the queue as it is; it never panics, on any queue. On a queue of length other
  than 0 that a sequence of \<open>Push\<close> and \<open>Pop\<close> calls has built, \<open>Pop\<close> returns with the
  flag true a request of the queue that no request of the queue exceeds in \<open>Height\<close>, and
  removes it: one entry less, the others as they were, its key out of the set.
\<close>

theorem TargetQueue_Pop_result:
  "(TargetQueue_Len tq = 0 \<longrightarrow> TargetQueue_Pop tq = Some ((SyncRequest_zero, False), tq)) \<and>
   TargetQueue_Pop tq \<noteq> None \<and>
   (apply_ops ops NewTargetQueue = Some tq \<and> TargetQueue_Len tq \<noteq> 0 \<longrightarrow>
      (\<exists>req tq1. TargetQueue_Pop tq = Some ((req, True), tq1) \<and>
         ChainInfo req \<in> ChainInfo ` set (q tq) \<and>
         (\<forall>r \<in> set (q tq). Height (ChainInfo r) \<le> Height (ChainInfo req)) \<and>
         mset (map ChainInfo (q tq)) = add_mset (ChainInfo req) (mset (map ChainInfo (q tq1))) \<and>
         TargetQueue_Len tq1 = TargetQueue_Len tq - 1 \<and>
         targetSet tq1 = targetSet tq - {String (Head (ChainInfo req))}))"
proof (intro conjI impI)
  assume "TargetQueue_Len tq = 0"
  then show "TargetQueue_Pop tq = Some ((SyncRequest_zero, False), tq)"
    by (simp add: TargetQueue_Pop_def)
next
  show "TargetQueue_Pop tq \<noteq> None"
    using Pop_no_panic[of tq] by auto
next
  assume a: "apply_ops ops NewTargetQueue = Some tq \<and> TargetQueue_Len tq \<noteq> 0"
  then have inv: "tq_inv tq" and ne: "q tq \<noteq> []"
    using apply_ops_reach_inv by (auto simp: Len_eq)
  from Pop_nonempty[OF inv ne] obtain req tq1 where
    P: "TargetQueue_Pop tq = Some ((req, True), tq1)"
    and l: "length (q tq1) = length (q tq) - 1"
    and m: "mset (infos (q tq)) = add_mset (ChainInfo req) (mset (infos (q tq1)))"
    and s: "targetSet tq1 = targetSet tq - {String (Head (ChainInfo req))}"
    and mx: "\<forall>c \<in> set (infos (q tq)). Height c \<le> Height (ChainInfo req)"
    by blast
  have "ChainInfo req \<in># mset (infos (q tq))" using m by simp
  then have mem: "ChainInfo req \<in> ChainInfo ` set (q tq)" by (simp add: infos_def)
  have len: "TargetQueue_Len tq1 = TargetQueue_Len tq - 1"
    using l ne by (cases "q tq") (simp_all add: Len_eq)
  show "\<exists>req tq1. TargetQueue_Pop tq = Some ((req, True), tq1) \<and>
         ChainInfo req \<in> ChainInfo ` set (q tq) \<and>
         (\<forall>r \<in> set (q tq). Height (ChainInfo r) \<le> Height (ChainInfo req)) \<and>
         mset (map ChainInfo (q tq)) = add_mset (ChainInfo req) (mset (map ChainInfo (q tq1))) \<and>
         TargetQueue_Len tq1 = TargetQueue_Len tq - 1 \<and>
         targetSet tq1 = targetSet tq - {String (Head (ChainInfo req))}"
    using P mem mx m len s by (auto simp: infos_def)
qed

lemma apply_ops_pushes: "apply_ops (map Push reqs) tq = Some (pushes tq reqs)"
  by (induction reqs arbitrary: tq) (simp_all add: pushes_def)

lemma happy_queue:
  "pushes NewTargetQueue happy =
     \<lparr>q = [\<lparr>ChainInfo = \<lparr>Head = TipSetKey ''47'', Height = 47\<rparr>, index = 1\<rparr>,
            \<lparr>ChainInfo = \<lparr>Head = TipSetKey ''2'', Height = 2\<rparr>, index = 0\<rparr>,
            \<lparr>ChainInfo = \<lparr>Head = TipSetKey ''0'', Height = 0\<rparr>, index = 2\<rparr>,
            \<lparr>ChainInfo = \<lparr>Head = TipSetKey ''1'', Height = 1\<rparr>, index = 3\<rparr>],
       targetSet = {''1'', ''0'', ''47'', ''2''}\<rparr>"
  by code_simp

theorem TargetQueue_Pop_result_witness:
  "TargetQueue_Len NewTargetQueue = 0 \<and>
   TargetQueue_Pop NewTargetQueue = Some ((SyncRequest_zero, False), NewTargetQueue) \<and>
   apply_ops (map Push happy) NewTargetQueue = Some (pushes NewTargetQueue happy) \<and>
   TargetQueue_Len (pushes NewTargetQueue happy) = 4 \<and>
   (\<exists>req tq1. TargetQueue_Pop (pushes NewTargetQueue happy) = Some ((req, True), tq1) \<and>
      Height (ChainInfo req) = 47 \<and> TargetQueue_Len tq1 = 3)"
proof -
  have z: "TargetQueue_Len NewTargetQueue = 0"
    by (simp add: Len_eq NewTargetQueue_eq)
  have e: "TargetQueue_Pop NewTargetQueue = Some ((SyncRequest_zero, False), NewTargetQueue)"
    using TargetQueue_Pop_result[of NewTargetQueue] z by simp
  have a: "apply_ops (map Push happy) NewTargetQueue = Some (pushes NewTargetQueue happy)"
    by (rule apply_ops_pushes)
  have l: "TargetQueue_Len (pushes NewTargetQueue happy) = 4"
    unfolding happy_queue by (simp add: Len_eq)
  from TargetQueue_Pop_result[of "pushes NewTargetQueue happy" "map Push happy"] a l
  obtain req tq1 where
    P: "TargetQueue_Pop (pushes NewTargetQueue happy) = Some ((req, True), tq1)"
    and mx: "\<forall>r \<in> set (q (pushes NewTargetQueue happy)). Height (ChainInfo r) \<le> Height (ChainInfo req)"
    and l1: "TargetQueue_Len tq1 = TargetQueue_Len (pushes NewTargetQueue happy) - 1"
    by auto
  have "47 \<le> Height (ChainInfo req)"
    using mx unfolding happy_queue by simp
  moreover have "Height c \<le> 47" if "c \<in> ChainInfo ` set (q (pushes NewTargetQueue happy))" for c
    using that unfolding happy_queue by (auto simp: word_le_nat_alt)
  moreover have "ChainInfo req \<in> ChainInfo ` set (q (pushes NewTargetQueue happy))"
    using TargetQueue_Pop_result[of "pushes NewTargetQueue happy" "map Push happy"] a l P by auto
  ultimately have h: "Height (ChainInfo req) = 47" by fastforce
  show ?thesis
    using z e a l P h l1 by simp
qed

subsection \<open>C3: maybeFireCbs leaves the list of callbacks as it is\<close>

lemma maybeFireCbs_eq:
  "maybeFireCbs d =
     (d, map (\<lambda>c. Fired (opc_cb c))
           (filter (\<lambda>c. opc_start c + opc_n c = syncReqCount d) (onProcessedCountCbs d)))"
  by (simp add: maybeFireCbs_def maybeFireCbs_loop_eq)

lemma length_filter_nth:
  "length (filter (\<lambda>i. P (xs ! i)) [0..<length xs]) = length (filter P xs)"
proof -
  have "filter P (map ((!) xs) [0..<length xs]) = map ((!) xs) (filter (\<lambda>i. P (xs ! i)) [0..<length xs])"
    by (simp add: filter_map comp_def)
  then have "length (filter P (map ((!) xs) [0..<length xs])) = length (filter (\<lambda>i. P (xs ! i)) [0..<length xs])"
    by simp
  then show ?thesis by (simp add: map_nth)
qed

text \<open>
  C3: \<open>maybeFireCbs\<close> returns the dispatcher it was given, so the list of pending
  callbacks is unchanged. The loop does compute one removal index for each callback it
  fires, and every callback it fires is still in the list afterwards.
\<close>

theorem maybeFireCbs_keeps_callbacks:
  "fst (maybeFireCbs d) = d \<and>
   onProcessedCountCbs (fst (maybeFireCbs d)) = onProcessedCountCbs d \<and>
   length (fst (maybeFireCbs_loop d)) = length (snd (maybeFireCbs d)) \<and>
   (\<forall>c \<in> set (onProcessedCountCbs d).
      opc_start c + opc_n c = syncReqCount d \<longrightarrow>
        Fired (opc_cb c) \<in> set (snd (maybeFireCbs d)) \<and>
        c \<in> set (onProcessedCountCbs (fst (maybeFireCbs d))))"
proof (intro conjI ballI impI)
  show "fst (maybeFireCbs d) = d" by (simp add: maybeFireCbs_eq)
  show "onProcessedCountCbs (fst (maybeFireCbs d)) = onProcessedCountCbs d"
    by (simp add: maybeFireCbs_eq)
  show "length (fst (maybeFireCbs_loop d)) = length (snd (maybeFireCbs d))"
    using length_filter_nth[of "\<lambda>c. opc_start c + opc_n c = syncReqCount d" "onProcessedCountCbs d"]
    by (simp add: maybeFireCbs_eq maybeFireCbs_loop_eq)
next
  fix c assume c: "c \<in> set (onProcessedCountCbs d)" and r: "opc_start c + opc_n c = syncReqCount d"
  then have "c \<in> set (filter (\<lambda>c. opc_start c + opc_n c = syncReqCount d) (onProcessedCountCbs d))"
    by simp
  then show "Fired (opc_cb c) \<in> set (snd (maybeFireCbs d))"
    unfolding maybeFireCbs_eq snd_conv set_map by (rule imageI)
  show "c \<in> set (onProcessedCountCbs (fst (maybeFireCbs d)))"
    using c by (simp add: maybeFireCbs_eq)
qed

lemma two_pending_loop: "maybeFireCbs_loop two_pending = ([0], [Fired 7])"
  by (simp add: maybeFireCbs_loop_def two_pending_def)

theorem maybeFireCbs_keeps_callbacks_witness:
  "maybeFireCbs_loop two_pending = ([0], [Fired 7]) \<and>
   snd (maybeFireCbs two_pending) = [Fired 7] \<and>
   onProcessedCountCbs (fst (maybeFireCbs two_pending)) =
     [\<lparr>opc_cb = 7, opc_n = 3, opc_start = 5\<rparr>, \<lparr>opc_cb = 9, opc_n = 1, opc_start = 5\<rparr>]"
proof -
  have "onProcessedCountCbs (fst (maybeFireCbs two_pending)) = onProcessedCountCbs two_pending"
    using maybeFireCbs_keeps_callbacks[of two_pending] by blast
  moreover have "snd (maybeFireCbs two_pending) = [Fired 7]"
    by (simp add: maybeFireCbs_def two_pending_loop)
  ultimately show ?thesis
    using two_pending_loop by (simp add: two_pending_def)
qed

subsection \<open>C2: a target that the counter has passed\<close>

text \<open>
  C2 does not hold of the code. A callback is registered for 0 more requests in a cycle
  that also dispatches a request: it is stamped with the counter at 0, so its target is 0,
  and the counter is 1 when the cycle ends. The callback is pending and has never fired,
  the counter has passed its target, and the check fires nothing, in this state and in
  every later cycle of the run.
\<close>

theorem maybeFireCbs_skips_passed_target:
  "fst (cycle (hd registered_for_0) NewDispatcher None) =
     Continue \<lparr>targetQ = \<lparr>q = [], targetSet = {}\<rparr>,
               onProcessedCountCbs = [\<lparr>opc_cb = 7, opc_n = 0, opc_start = 0\<rparr>],
               syncReqCount = 1\<rparr> None \<and>
   maybeFireCbs_loop
     \<lparr>targetQ = \<lparr>q = [], targetSet = {}\<rparr>,
      onProcessedCountCbs = [\<lparr>opc_cb = 7 :: nat, opc_n = 0, opc_start = 0\<rparr>],
      syncReqCount = 1\<rparr> = ([], []) \<and>
   run registered_for_0 NewDispatcher None =
     [HandleNewTipSet \<lparr>Head = TipSetKey ''a'', Height = 1\<rparr> True,
      HandleNewTipSet \<lparr>Head = TipSetKey ''c'', Height = 3\<rparr> True,
      HandleNewTipSet \<lparr>Head = TipSetKey ''b'', Height = 2\<rparr> True]"
  by code_simp

subsection \<open>C8: one request, one call of the syncer, one count\<close>

lemma intake_count: "syncReqCount (fst (intake env d lastReq)) = syncReqCount d"
  by (cases "ctrl_ready env"; cases "the (ctrl_ready env)")
     (auto simp: intake_def Let_def split: prod.splits option.splits)

lemma intake_events:
  "filter is_HandleNewTipSet (snd (intake env d lastReq)) = [] \<and>
   filter is_LogSyncError (snd (intake env d lastReq)) = []"
  by (cases "ctrl_ready env"; cases "the (ctrl_ready env)")
     (auto simp: intake_def Let_def split: prod.splits option.splits)

lemma maybeFireCbs_events:
  "filter is_HandleNewTipSet (snd (maybeFireCbs d)) = [] \<and>
   filter is_LogSyncError (snd (maybeFireCbs d)) = []"
  by (simp add: maybeFireCbs_eq filter_map comp_def)

text \<open>
  C8: in a cycle that is not cancelled and in which \<open>Pop\<close> returns a request, the events
  of the cycle hold exactly one call of \<open>HandleNewTipSet\<close>, with the \<open>ChainInfo\<close> of that
  request and \<open>true\<close>; whatever the syncer returns, the loop goes on to the next cycle
  with \<open>syncReqCount\<close> one higher, with the queue as \<open>Pop\<close> left it and with no request
  held back in \<open>last\<close>; an error of the syncer is logged, once.
\<close>

theorem cycle_dispatch_counts:
  assumes "\<not> ctx_done env"
    and "intake env d lastReq = (d2, evs2)"
    and "TargetQueue_Pop (targetQ d2) = Some ((syncReq, True), tq)"
  shows "fst (cycle env d lastReq) =
           Continue (d2\<lparr>targetQ := tq, syncReqCount := syncReqCount d + 1\<rparr>) None \<and>
         filter is_HandleNewTipSet (snd (cycle env d lastReq)) =
           [HandleNewTipSet (ChainInfo syncReq) True] \<and>
         filter is_LogSyncError (snd (cycle env d lastReq)) =
           (case sync_err env of Some err \<Rightarrow> [LogSyncError err] | None \<Rightarrow> [])"
proof -
  have c2: "syncReqCount d2 = syncReqCount d"
    using intake_count[of env d lastReq] assms(2) by simp
  have e2: "filter is_HandleNewTipSet evs2 = []" "filter is_LogSyncError evs2 = []"
    using intake_events[of env d lastReq] assms(2) by simp_all
  note e1 = maybeFireCbs_events[of d]
  have cyc: "cycle env d lastReq =
      (Continue (d2\<lparr>targetQ := tq, syncReqCount := syncReqCount d + 1\<rparr>) None,
       snd (maybeFireCbs d) @ evs2 @ [HandleNewTipSet (ChainInfo syncReq) True] @
         (case sync_err env of Some err \<Rightarrow> [LogSyncError err] | None \<Rightarrow> []))"
    using assms c2 by (simp add: cycle_def maybeFireCbs_eq Let_def)
  show ?thesis
    unfolding cyc using e1 e2 by (cases "sync_err env") simp_all
qed

lemma pop_single:
  "TargetQueue_Pop (pushes NewTargetQueue [testRequest ''a'' 1]) =
     Some ((\<lparr>ChainInfo = \<lparr>Head = TipSetKey ''a'', Height = 1\<rparr>, index = - 1\<rparr>, True),
           \<lparr>q = [], targetSet = {}\<rparr>)"
  by code_simp

theorem cycle_dispatch_counts_witness:
  "\<not> ctx_done failing_sync \<and>
   fst (cycle failing_sync at_five None) =
     Continue \<lparr>targetQ = \<lparr>q = [], targetSet = {}\<rparr>, onProcessedCountCbs = [], syncReqCount = 6\<rparr> None \<and>
   filter is_HandleNewTipSet (snd (cycle failing_sync at_five None)) =
     [HandleNewTipSet \<lparr>Head = TipSetKey ''a'', Height = 1\<rparr> True] \<and>
   filter is_LogSyncError (snd (cycle failing_sync at_five None)) = [LogSyncError ''boom'']"
proof -
  have h1: "\<not> ctx_done failing_sync"
    by (simp add: failing_sync_def quiet_def)
  have h2: "intake failing_sync at_five None =
      (at_five\<lparr>targetQ := pushes NewTargetQueue [testRequest ''a'' 1]\<rparr>, [])"
    by (simp add: intake_def failing_sync_def quiet_def at_five_def)
  have h3: "TargetQueue_Pop (targetQ (at_five\<lparr>targetQ := pushes NewTargetQueue [testRequest ''a'' 1]\<rparr>)) =
      Some ((\<lparr>ChainInfo = \<lparr>Head = TipSetKey ''a'', Height = 1\<rparr>, index = - 1\<rparr>, True),
            \<lparr>q = [], targetSet = {}\<rparr>)"
    by (simp add: pop_single)
  have s: "sync_err failing_sync = Some ''boom''"
    by (simp add: failing_sync_def quiet_def)
  from cycle_dispatch_counts[OF h1 h2 h3] show ?thesis
    using h1 by (simp add: s at_five_def)
qed

subsection \<open>C9: control signals\<close>





subsection \<open>C1: a callback can fire twice\<close>

text \<open>
  C1 does not hold of the code. Five requests are processed; a callback is registered for
  3 more requests with the counter at 5; three more requests are processed. In the next
  cycle the counter is 8 and the callback fires; the queue is empty, the loop waits for a
  request; in the cycle after that the counter is still 8, the callback is still in the
  list, and it fires a second time.
\<close>

theorem maybeFireCbs_fires_twice:
  "run registered_at_5 NewDispatcher None =
     [HandleNewTipSet \<lparr>Head = TipSetKey ''5'', Height = 5\<rparr> True,
      HandleNewTipSet \<lparr>Head = TipSetKey ''4'', Height = 4\<rparr> True,
      HandleNewTipSet \<lparr>Head = TipSetKey ''3'', Height = 3\<rparr> True,
      HandleNewTipSet \<lparr>Head = TipSetKey ''2'', Height = 2\<rparr> True,
      HandleNewTipSet \<lparr>Head = TipSetKey ''1'', Height = 1\<rparr> True,
      HandleNewTipSet \<lparr>Head = TipSetKey ''8'', Height = 8\<rparr> True,
      HandleNewTipSet \<lparr>Head = TipSetKey ''7'', Height = 7\<rparr> True,
      HandleNewTipSet \<lparr>Head = TipSetKey ''6'', Height = 6\<rparr> True,
      Fired 7,
      Fired 7,
      HandleNewTipSet \<lparr>Head = TipSetKey ''9'', Height = 9\<rparr> True]"
  by code_simp

end
